theory Spec2Isabelle
  imports Main "HOL-Library.Word" "HOL-Library.Sublist"
begin

section \<open>Strings and numbers of the source language\<close>

text \<open>
  The program is TypeScript. A string is a sequence of UTF-16 code units, so it is modelled
  as a list of 16-bit words. Every character the code inspects lies in the Basic
  Multilingual Plane, where one character is one code unit; a surrogate half is no digit,
  no multiplier and no wrapper marker, so iterating by code unit and iterating by code point
  (as \<^verbatim>\<open>[...kanji]\<close> and \<^verbatim>\<open>for (const char of kanji)\<close> do) visit the same
  digits and multipliers in the same order.

  A number is modelled as a mathematical integer (\<^typ>\<open>int\<close>); the value NaN, which only
  \<^verbatim>\<open>parseInt\<close> produces here, is \<^term>\<open>None\<close>. The code's numbers are IEEE doubles,
  which agree with the integers as long as every value stays below \<open>2^53\<close>; statements
  about arbitrary inputs say where they rely on that.
\<close>

type_synonym cu = "16 word"
type_synonym jstring = "cu list"

definition asc :: "string \<Rightarrow> jstring" where
  "asc s = map of_char s"

text \<open>White space and line terminators: what \<^verbatim>\<open>trim\<close>, \<^verbatim>\<open>\s\<close> and
  \<^verbatim>\<open>parseInt\<close> skip.\<close>

definition is_ws :: "cu \<Rightarrow> bool" where
  "is_ws c \<longleftrightarrow>
     c \<in> set [0x09, 0x0A, 0x0B, 0x0C, 0x0D, 0x20, 0xA0, 0x1680,
               0x2028, 0x2029, 0x202F, 0x205F, 0x3000, 0xFEFF]
     \<or> (0x2000 \<le> c \<and> c \<le> 0x200A)"

definition is_line_terminator :: "cu \<Rightarrow> bool" where
  "is_line_terminator c \<longleftrightarrow> c \<in> set [0x0A, 0x0D, 0x2028, 0x2029]"

definition is_digit :: "cu \<Rightarrow> bool" where
  "is_digit c \<longleftrightarrow> 0x30 \<le> c \<and> c \<le> 0x39"

definition trim :: "jstring \<Rightarrow> jstring" where
  "trim s = rev (dropWhile is_ws (rev (dropWhile is_ws s)))"

text \<open>A non-empty string of the digits 0 to 9: the test \<^verbatim>\<open>/^\d+$/\<close>.\<close>

definition digit_string :: "jstring \<Rightarrow> bool" where
  "digit_string s \<longleftrightarrow> s \<noteq> [] \<and> list_all is_digit s"

text \<open>\<^verbatim>\<open>String(n)\<close> and template interpolation of an integer.\<close>

definition digit_cu :: "nat \<Rightarrow> cu" where
  "digit_cu d = [0x30, 0x31, 0x32, 0x33, 0x34, 0x35, 0x36, 0x37, 0x38, 0x39] ! d"

fun nat_to_string :: "nat \<Rightarrow> jstring" where
  "nat_to_string n =
     (if n < 10 then [digit_cu n] else nat_to_string (n div 10) @ [digit_cu (n mod 10)])"

declare nat_to_string.simps [simp del]

definition num_to_string :: "int \<Rightarrow> jstring" where
  "num_to_string n = (if n < 0 then 0x2D # nat_to_string (nat (- n)) else nat_to_string (nat n))"

text \<open>
  \<^verbatim>\<open>parseInt(s, 10)\<close>: skip leading white space, read an optional sign, then the longest
  run of decimal digits; no digit at all gives NaN. Whatever follows the digits is ignored.
\<close>

definition digit_val :: "cu \<Rightarrow> int" where
  "digit_val c = uint c - 48"

definition digits_value :: "jstring \<Rightarrow> int" where
  "digits_value ds = foldl (\<lambda>acc c. 10 * acc + digit_val c) 0 ds"

definition parseInt10 :: "jstring \<Rightarrow> int option" where
  "parseInt10 s =
     (let t = dropWhile is_ws s;
          neg = (t \<noteq> [] \<and> hd t = 0x2D);
          u = (if t \<noteq> [] \<and> (hd t = 0x2B \<or> hd t = 0x2D) then tl t else t);
          ds = takeWhile is_digit u
      in if ds = [] then None
         else Some (if neg then - digits_value ds else digits_value ds))"

section \<open>Kanji numerals (utils/kanji-numerals)\<close>

definition KANJI_DIGITS :: "cu \<rightharpoonup> int" where
  "KANJI_DIGITS = map_of
     [(0x3007, 0), (0x96F6, 0),
      (0x4E00, 1), (0x58F1, 1),
      (0x4E8C, 2), (0x5F10, 2),
      (0x4E09, 3), (0x53C2, 3),
      (0x56DB, 4),
      (0x4E94, 5),
      (0x516D, 6),
      (0x4E03, 7),
      (0x516B, 8),
      (0x4E5D, 9)]"

definition KANJI_MULTIPLIERS :: "cu \<rightharpoonup> int" where
  "KANJI_MULTIPLIERS = map_of [(0x5341, 10), (0x767E, 100), (0x5343, 1000)]"

definition ARABIC_TO_KANJI_DIGITS :: "int \<rightharpoonup> cu" where
  "ARABIC_TO_KANJI_DIGITS = map_of
     [(0, 0x3007), (1, 0x4E00), (2, 0x4E8C), (3, 0x4E09), (4, 0x56DB),
      (5, 0x4E94), (6, 0x516D), (7, 0x4E03), (8, 0x516B), (9, 0x4E5D)]"

text \<open>The wrapper markers: U+7B2C (dai), U+6761 (jo, article), U+9805 (ko, paragraph),
  U+53F7 (go, item).\<close>

definition cu_dai :: cu where "cu_dai = 0x7B2C"
definition cu_jo :: cu where "cu_jo = 0x6761"
definition cu_ko :: cu where "cu_ko = 0x9805"
definition cu_go :: cu where "cu_go = 0x53F7"

text \<open>The loop of \<^verbatim>\<open>kanjiToArabic\<close>, with its two variables \<open>result\<close> and
  \<open>current\<close> as arguments.\<close>

fun kanji_loop :: "jstring \<Rightarrow> int \<Rightarrow> int \<Rightarrow> int" where
  "kanji_loop [] result current = result + current"
| "kanji_loop (ch # rest) result current =
     (case KANJI_DIGITS ch of
        Some d \<Rightarrow> kanji_loop rest result d
      | None \<Rightarrow>
         (case KANJI_MULTIPLIERS ch of
            Some multiplier \<Rightarrow>
              kanji_loop rest (result + (if current = 0 then 1 else current) * multiplier) 0
          | None \<Rightarrow> kanji_loop rest result current))"

text \<open>In the positional branch every character is a key of \<^verbatim>\<open>KANJI_DIGITS\<close> and
  the joined digits are a non-empty digit string, so neither the lookup nor
  \<^verbatim>\<open>parseInt\<close> can miss there (lemmas \<open>positional_digit_string\<close> and
  \<open>parseInt10_digit_string\<close>).\<close>

definition kanjiToArabic :: "jstring \<Rightarrow> int" where
  "kanjiToArabic kanji =
     (if kanji = [] then 0
      else if list_all (\<lambda>c. KANJI_DIGITS c \<noteq> None) kanji \<and> length kanji > 1
              \<and> \<not> list_ex (\<lambda>c. KANJI_MULTIPLIERS c \<noteq> None) kanji
        then the (parseInt10 (concat (map (\<lambda>c. num_to_string (the (KANJI_DIGITS c))) kanji)))
      else if length kanji = 1 \<and> KANJI_DIGITS (hd kanji) \<noteq> None
        then the (KANJI_DIGITS (hd kanji))
      else kanji_loop kanji 0 0)"

text \<open>Appending \<^verbatim>\<open>ARABIC_TO_KANJI_DIGITS[k]\<close> to a string: a key outside 0..9 reads
  \<^verbatim>\<open>undefined\<close>, which concatenates as the nine letters of that word.\<close>

definition digit_kanji :: "int \<Rightarrow> jstring" where
  "digit_kanji k = (case ARABIC_TO_KANJI_DIGITS k of Some c \<Rightarrow> [c] | None \<Rightarrow> asc ''undefined'')"

definition arabicToKanji :: "int \<Rightarrow> jstring" where
  "arabicToKanji num =
     (if num < 0 then []
      else if num = 0 then [0x3007]
      else if num \<le> 9 then digit_kanji num
      else
        let remaining = num;
            thousands = remaining div 1000;
            r1 = (if thousands > 0
                  then (if thousands > 1 then digit_kanji thousands else []) @ [0x5343]
                  else []);
            remaining = (if thousands > 0 then remaining mod 1000 else remaining);
            hundreds = remaining div 100;
            r2 = (if hundreds > 0
                  then r1 @ (if hundreds > 1 then digit_kanji hundreds else []) @ [0x767E]
                  else r1);
            remaining = (if hundreds > 0 then remaining mod 100 else remaining);
            tens = remaining div 10;
            r3 = (if tens > 0
                  then r2 @ (if tens > 1 then digit_kanji tens else []) @ [0x5341]
                  else r2);
            remaining = (if tens > 0 then remaining mod 10 else remaining)
        in if remaining > 0 then r3 @ digit_kanji remaining else r3)"


section \<open>Regular expressions\<close>

text \<open>
  The parser is written with regular expressions, so the embedding has the fragment of the
  ECMAScript pattern language that the source uses: single-unit atoms, greedy and lazy
  quantifiers on an atom, optional groups, ordered alternation, capture groups and the
  anchors. A pattern is matched by backtracking; \<open>rmatch\<close> lists every way a pattern can
  match from an index, in the order backtracking tries them, so the match the engine finds is
  the head of the list.
\<close>

datatype cclass =
    Lit cu
  | AnyChar
  | Digit
  | Space
  | OneOf "cu list"

text \<open>
  Case folding under the \<^verbatim>\<open>i\<close> flag (no \<^verbatim>\<open>u\<close> flag). Every literal of the
  case-insensitive patterns is an ASCII character or U+3001, and the engine never folds a
  non-ASCII unit to an ASCII one, so folding the ASCII letters is all that can make two
  units equal here.
\<close>

definition canon :: "bool \<Rightarrow> cu \<Rightarrow> cu" where
  "canon ic c = (if ic \<and> 0x61 \<le> c \<and> c \<le> 0x7A then c - 0x20 else c)"

fun cmatch :: "bool \<Rightarrow> cclass \<Rightarrow> cu \<Rightarrow> bool" where
  "cmatch ic (Lit a) c = (canon ic a = canon ic c)"
| "cmatch ic AnyChar c = (\<not> is_line_terminator c)"
| "cmatch ic Digit c = is_digit c"
| "cmatch ic Space c = is_ws c"
| "cmatch ic (OneOf as) c = (canon ic c \<in> set (map (canon ic) as))"

datatype rx =
    Eps
  | Ch cclass
  | Star cclass
  | Plus cclass
  | PlusLazy cclass
  | Opt rx
  | Cat rx rx
  | Alt rx rx
  | Grp nat rx
  | Bol
  | Eol

definition seq :: "rx list \<Rightarrow> rx" where
  "seq rs = foldr Cat rs Eps"

definition lit :: "string \<Rightarrow> rx" where
  "lit s = seq (map (\<lambda>c. Ch (Lit (of_char c))) s)"

type_synonym caps = "nat \<rightharpoonup> jstring"
type_synonym mstate = "nat \<times> caps"

text \<open>How many units from index \<open>i\<close> on belong to the class.\<close>

definition run :: "bool \<Rightarrow> cclass \<Rightarrow> jstring \<Rightarrow> nat \<Rightarrow> nat" where
  "run ic k inp i = length (takeWhile (cmatch ic k) (drop i inp))"

fun rmatch :: "bool \<Rightarrow> jstring \<Rightarrow> rx \<Rightarrow> mstate \<Rightarrow> mstate list" where
  "rmatch ic inp Eps (i, c) = [(i, c)]"
| "rmatch ic inp (Ch k) (i, c) =
     (if i < length inp \<and> cmatch ic k (inp ! i) then [(Suc i, c)] else [])"
| "rmatch ic inp (Star k) (i, c) = map (\<lambda>n. (i + n, c)) (rev [0 ..< Suc (run ic k inp i)])"
| "rmatch ic inp (Plus k) (i, c) = map (\<lambda>n. (i + n, c)) (rev [1 ..< Suc (run ic k inp i)])"
| "rmatch ic inp (PlusLazy k) (i, c) = map (\<lambda>n. (i + n, c)) [1 ..< Suc (run ic k inp i)]"
| "rmatch ic inp (Opt r) (i, c) = rmatch ic inp r (i, c) @ [(i, c)]"
| "rmatch ic inp (Cat r1 r2) (i, c) =
     concat (map (\<lambda>st. rmatch ic inp r2 st) (rmatch ic inp r1 (i, c)))"
| "rmatch ic inp (Alt r1 r2) (i, c) = rmatch ic inp r1 (i, c) @ rmatch ic inp r2 (i, c)"
| "rmatch ic inp (Grp g r) (i, c) =
     map (\<lambda>(j, c'). (j, c'(g \<mapsto> take (j - i) (drop i inp)))) (rmatch ic inp r (i, c))"
| "rmatch ic inp Bol (i, c) = (if i = 0 then [(i, c)] else [])"
| "rmatch ic inp Eol (i, c) = (if i = length inp then [(i, c)] else [])"

text \<open>\<^verbatim>\<open>str.match(re)\<close> for a pattern without the \<^verbatim>\<open>g\<close> flag: the first start index,
  from 0 up to the length, at which the pattern matches; the result is the captures.\<close>

fun exec_from :: "bool \<Rightarrow> rx \<Rightarrow> jstring \<Rightarrow> nat list \<Rightarrow> caps option" where
  "exec_from ic r inp [] = None"
| "exec_from ic r inp (i # is) =
     (case rmatch ic inp r (i, Map.empty) of
        [] \<Rightarrow> exec_from ic r inp is
      | (j, c) # _ \<Rightarrow> Some c)"

definition exec :: "bool \<Rightarrow> rx \<Rightarrow> jstring \<Rightarrow> caps option" where
  "exec ic r inp = exec_from ic r inp [0 ..< Suc (length inp)]"

definition test :: "bool \<Rightarrow> rx \<Rightarrow> jstring \<Rightarrow> bool" where
  "test ic r inp \<longleftrightarrow> exec ic r inp \<noteq> None"

text \<open>The patterns of utils/kanji-numerals.\<close>

definition DIGITS_ONLY :: rx where
  "DIGITS_ONLY = seq [Bol, Plus Digit, Eol]"

definition JO_WRAPPER :: rx where
  "JO_WRAPPER = seq [Bol, Ch (Lit cu_dai), Grp 1 (PlusLazy AnyChar), Ch (Lit cu_jo)]"

definition KOU_WRAPPER :: rx where
  "KOU_WRAPPER = seq [Bol, Ch (Lit cu_dai), Grp 1 (PlusLazy AnyChar), Ch (Lit cu_ko)]"

definition GO_WRAPPER :: rx where
  "GO_WRAPPER = seq [Bol, Ch (Lit cu_dai), Grp 1 (PlusLazy AnyChar), Ch (Lit cu_go)]"

definition parseArticleNumber :: "jstring \<Rightarrow> jstring" where
  "parseArticleNumber ref =
     (let trimmed = trim ref in
      case exec False JO_WRAPPER trimmed of
        Some joMatch \<Rightarrow>
          (let inner = the (joMatch 1) in
           if test False DIGITS_ONLY inner then inner
           else let arabicNum = kanjiToArabic inner
                in if arabicNum > 0 then num_to_string arabicNum else inner)
      | None \<Rightarrow>
          if test False DIGITS_ONLY trimmed then trimmed
          else let arabicNum = kanjiToArabic trimmed
               in if arabicNum > 0 then num_to_string arabicNum else trimmed)"

text \<open>The argument of \<^verbatim>\<open>formatArticleKanji\<close> is a string or a number.\<close>

datatype article_num = AStr jstring | ANum int

fun formatArticleKanji :: "article_num \<Rightarrow> jstring" where
  "formatArticleKanji (AStr articleNum) =
     (case parseInt10 articleNum of
        None \<Rightarrow> [cu_dai] @ articleNum @ [cu_jo]
      | Some num \<Rightarrow>
          if num \<le> 0 then [cu_dai] @ articleNum @ [cu_jo]
          else [cu_dai] @ arabicToKanji num @ [cu_jo])"
| "formatArticleKanji (ANum num) =
     (if num \<le> 0 then [cu_dai] @ num_to_string num @ [cu_jo]
      else [cu_dai] @ arabicToKanji num @ [cu_jo])"

definition parseParagraphNumber :: "jstring \<Rightarrow> jstring" where
  "parseParagraphNumber ref =
     (let trimmed = trim ref in
      case exec False KOU_WRAPPER trimmed of
        Some kouMatch \<Rightarrow>
          (let inner = the (kouMatch 1) in
           if test False DIGITS_ONLY inner then inner
           else let arabicNum = kanjiToArabic inner
                in if arabicNum > 0 then num_to_string arabicNum else inner)
      | None \<Rightarrow>
          if test False DIGITS_ONLY trimmed then trimmed
          else let arabicNum = kanjiToArabic trimmed
               in if arabicNum > 0 then num_to_string arabicNum else trimmed)"

definition parseItemNumber :: "jstring \<Rightarrow> jstring" where
  "parseItemNumber ref =
     (let trimmed = trim ref in
      case exec False GO_WRAPPER trimmed of
        Some goMatch \<Rightarrow>
          (let inner = the (goMatch 1) in
           if test False DIGITS_ONLY inner then inner
           else let arabicNum = kanjiToArabic inner
                in if arabicNum > 0 then num_to_string arabicNum else inner)
      | None \<Rightarrow>
          if test False DIGITS_ONLY trimmed then trimmed
          else let arabicNum = kanjiToArabic trimmed
               in if arabicNum > 0 then num_to_string arabicNum else trimmed)"


section \<open>The parsed citation (types)\<close>

datatype citation_type = statute | cabinet_order | ministerial_ordinance | unknown

text \<open>An optional field that is absent (\<^verbatim>\<open>undefined\<close>) is \<^term>\<open>None\<close>.\<close>

record ParsedCitation =
  valid :: bool
  type :: citation_type
  title :: "jstring option"
  title_en :: "jstring option"
  law_number :: "jstring option"
  year :: "int option"
  act_number :: "int option"
  article :: "jstring option"
  "paragraph" :: "jstring option"
  item :: "jstring option"
  error :: "jstring option"

text \<open>The fields of the other records carry a prefix, since a field name is a constant:
  \<open>vr_\<close> for \<^verbatim>\<open>ValidationResult\<close>, \<open>doc_\<close> for a row of \<^verbatim>\<open>legal_documents\<close>,
  \<open>fci_\<close> and \<open>fcr_\<close> for the input and the result of the format tool.\<close>

record ValidationResult =
  vr_citation :: ParsedCitation
  vr_document_exists :: bool
  vr_provision_exists :: bool
  vr_document_title :: "jstring option"
  vr_status :: "jstring option"
  vr_warnings :: "jstring list"

section \<open>The citation parser (citation/parser)\<close>

definition comma_class :: cclass where
  "comma_class = OneOf [0x2C, 0x3001]"

definition JAPANESE_CITATION :: rx where
  "JAPANESE_CITATION = seq
     [Bol,
      Grp 1 (seq [Ch (Lit cu_dai), PlusLazy AnyChar, Ch (Lit cu_jo),
                  Opt (seq [Ch (Lit cu_dai), PlusLazy AnyChar, Ch (Lit cu_ko)]),
                  Opt (seq [Ch (Lit cu_dai), PlusLazy AnyChar, Ch (Lit cu_go)])]),
      Star Space, Opt (Ch comma_class), Star Space,
      Grp 2 (Plus AnyChar),
      Eol]"

definition ENGLISH_FULL :: rx where
  "ENGLISH_FULL = seq
     [Bol,
      Alt (lit ''Article'') (seq [lit ''Art'', Opt (Ch (Lit 0x2E))]),
      Plus Space,
      Grp 1 (Plus Digit),
      Opt (seq [Star Space, Opt (Ch (Lit 0x2C)), Star Space,
                Alt (lit ''Paragraph'')
                  (Alt (seq [lit ''Para'', Opt (Ch (Lit 0x2E))])
                       (seq [lit ''Par'', Opt (Ch (Lit 0x2E))])),
                Plus Space,
                Grp 2 (Plus Digit)]),
      Opt (seq [Star Space, Opt (Ch (Lit 0x2C)), Star Space,
                lit ''Item'',
                Plus Space,
                Grp 3 (Plus Digit)]),
      Star Space, Ch comma_class, Star Space,
      Grp 4 (PlusLazy AnyChar),
      Opt (seq [Star Space, Ch (Lit 0x28), lit ''Act'', Plus Space, lit ''No'', Ch (Lit 0x2E),
                Star Space,
                Grp 5 (Plus Digit),
                Plus Space, lit ''of'', Plus Space,
                Grp 6 (seq [Ch Digit, Ch Digit, Ch Digit, Ch Digit]),
                Ch (Lit 0x29)]),
      Eol]"

definition SHORT_CITATION :: rx where
  "SHORT_CITATION = seq
     [Bol,
      Alt (seq [lit ''Art'', Opt (Ch (Lit 0x2E))]) (lit ''Article''),
      Plus Space,
      Grp 1 (Plus Digit),
      Opt (seq [Star Space, Opt (Ch (Lit 0x2C)), Star Space,
                Alt (seq [lit ''Para'', Opt (Ch (Lit 0x2E))]) (lit ''Paragraph''),
                Plus Space,
                Grp 2 (Plus Digit)]),
      Star Space, Ch comma_class, Star Space,
      Grp 3 (PlusLazy AnyChar),
      Eol]"

definition ID_BASED :: rx where
  "ID_BASED = seq
     [Bol,
      Grp 1 (seq [lit ''act-'', Plus Digit, Ch (Lit 0x2D), Ch Digit, Ch Digit, Ch Digit, Ch Digit]),
      Star Space, Ch comma_class, Star Space,
      Alt (seq [lit ''art'', Opt (Ch (Lit 0x2E))]) (lit ''article''),
      Star Space, Opt (Ch (Lit 0x2E)), Star Space,
      Grp 2 (Plus Digit),
      Opt (seq [Star Space, Ch comma_class, Star Space,
                Alt (seq [lit ''para'', Opt (Ch (Lit 0x2E))]) (lit ''paragraph''),
                Star Space, Opt (Ch (Lit 0x2E)), Star Space,
                Grp 3 (Plus Digit)]),
      Eol]"

definition TRAILING_JAPANESE :: rx where
  "TRAILING_JAPANESE = seq
     [Bol,
      Grp 1 (PlusLazy AnyChar),
      Plus Space,
      Grp 2 (seq [Ch (Lit cu_dai), PlusLazy AnyChar, Ch (Lit cu_jo),
                  Opt (seq [Ch (Lit cu_dai), PlusLazy AnyChar, Ch (Lit cu_ko)]),
                  Opt (seq [Ch (Lit cu_dai), PlusLazy AnyChar, Ch (Lit cu_go)])]),
      Eol]"

text \<open>The three patterns inside \<^verbatim>\<open>parseJapaneseRef\<close> and the one that takes an
  identifier apart; none of them is anchored.\<close>

definition ARTICLE_PART :: rx where
  "ARTICLE_PART = seq [Ch (Lit cu_dai), Grp 1 (PlusLazy AnyChar), Ch (Lit cu_jo)]"

definition PARAGRAPH_PART :: rx where
  "PARAGRAPH_PART =
     seq [Ch (Lit cu_jo), Grp 1 (seq [Ch (Lit cu_dai), PlusLazy AnyChar, Ch (Lit cu_ko)])]"

definition ITEM_PART :: rx where
  "ITEM_PART =
     seq [Opt (Ch (Lit cu_ko)), Grp 1 (seq [Ch (Lit cu_dai), PlusLazy AnyChar, Ch (Lit cu_go)])]"

definition ID_PARTS :: rx where
  "ID_PARTS = seq
     [lit ''act-'', Grp 1 (Plus Digit), Ch (Lit 0x2D),
      Grp 2 (seq [Ch Digit, Ch Digit, Ch Digit, Ch Digit])]"

text \<open>\<^verbatim>\<open>x || undefined\<close> on an optional string: the empty string is falsy.\<close>

definition or_undefined :: "jstring option \<Rightarrow> jstring option" where
  "or_undefined x = (case x of Some (a # as) \<Rightarrow> Some (a # as) | _ \<Rightarrow> None)"

text \<open>\<^verbatim>\<open>x ? parseInt(x, 10) : undefined\<close>. Here a NaN and an absent number are both
  \<^term>\<open>None\<close>; every use of the two fields is a truthiness test, which cannot tell them
  apart.\<close>

definition parse_int_if :: "jstring option \<Rightarrow> int option" where
  "parse_int_if x = (case x of Some (a # as) \<Rightarrow> parseInt10 (a # as) | _ \<Rightarrow> None)"

text \<open>
  Where the code reads a capture group without testing it (\<^verbatim>\<open>match[4].trim()\<close>), the
  group stands on the path of every match of its pattern, so it is never
  \<^verbatim>\<open>undefined\<close> there; the embedding reads it with \<^term>\<open>the\<close>. Lemma
  \<open>exec_defined\<close> with \<open>groups_read_are_defined\<close> shows that each such read is of a
  group that is set.
\<close>

definition parseJapaneseRef :: "jstring \<Rightarrow> jstring \<Rightarrow> ParsedCitation" where
  "parseJapaneseRef articleRef lawName =
     (let article = (case exec False ARTICLE_PART articleRef of
                       Some articleMatch \<Rightarrow> Some (parseArticleNumber articleRef)
                     | None \<Rightarrow> None);
          paragraph = (case exec False PARAGRAPH_PART articleRef of
                         Some paraMatch \<Rightarrow> Some (parseParagraphNumber (the (paraMatch 1)))
                       | None \<Rightarrow> None);
          item = (case exec False ITEM_PART articleRef of
                    Some itemMatch \<Rightarrow> Some (parseItemNumber (the (itemMatch 1)))
                  | None \<Rightarrow> None)
      in \<lparr> valid = True, type = statute, title = Some (trim lawName), title_en = None,
           law_number = None, year = None, act_number = None,
           article = article, paragraph = paragraph, item = item, error = None \<rparr>)"

definition parseCitation :: "jstring \<Rightarrow> ParsedCitation" where
  "parseCitation citation =
     (let trimmed = trim citation in
      case exec False JAPANESE_CITATION trimmed of
        Some m \<Rightarrow> parseJapaneseRef (the (m 1)) (the (m 2))
      | None \<Rightarrow>
     (case exec False TRAILING_JAPANESE trimmed of
        Some m \<Rightarrow> parseJapaneseRef (the (m 2)) (the (m 1))
      | None \<Rightarrow>
     (case exec True ENGLISH_FULL trimmed of
        Some m \<Rightarrow>
          \<lparr> valid = True, type = statute, title = None, title_en = Some (trim (the (m 4))),
            law_number = None, year = parse_int_if (m 6), act_number = parse_int_if (m 5),
            article = m 1, paragraph = or_undefined (m 2), item = or_undefined (m 3),
            error = None \<rparr>
      | None \<Rightarrow>
     (case exec True SHORT_CITATION trimmed of
        Some m \<Rightarrow>
          \<lparr> valid = True, type = statute, title = None, title_en = Some (trim (the (m 3))),
            law_number = None, year = None, act_number = None,
            article = m 1, paragraph = or_undefined (m 2), item = None,
            error = None \<rparr>
      | None \<Rightarrow>
     (case exec True ID_BASED trimmed of
        Some m \<Rightarrow>
          (let idParts = exec False ID_PARTS (the (m 1)) in
           \<lparr> valid = True, type = statute, title = m 1, title_en = None,
             law_number = None,
             year = (case idParts of Some p \<Rightarrow> parseInt10 (the (p 2)) | None \<Rightarrow> None),
             act_number = (case idParts of Some p \<Rightarrow> parseInt10 (the (p 1)) | None \<Rightarrow> None),
             article = m 2, paragraph = or_undefined (m 3), item = None,
             error = None \<rparr>)
      | None \<Rightarrow>
          \<lparr> valid = False, type = unknown, title = None, title_en = None,
            law_number = None, year = None, act_number = None,
            article = None, paragraph = None, item = None,
            error = Some (asc ''Could not parse Japanese legal citation: '' @ [0x22] @ trimmed @ [0x22]) \<rparr>)))))"


section \<open>The citation formatter (citation/formatter)\<close>

text \<open>Truthiness of an optional string (absent and empty are falsy) and of an optional
  number (absent, NaN and 0 are falsy).\<close>

definition truthy_str :: "jstring option \<Rightarrow> bool" where
  "truthy_str x = (case x of Some (a # as) \<Rightarrow> True | _ \<Rightarrow> False)"

definition truthy_num :: "int option \<Rightarrow> bool" where
  "truthy_num x = (case x of Some n \<Rightarrow> n \<noteq> 0 | None \<Rightarrow> False)"

text \<open>\<^verbatim>\<open>a ?? b ?? ''\<close>: the first of the two that is present.\<close>

definition coalesce :: "jstring option \<Rightarrow> jstring option \<Rightarrow> jstring" where
  "coalesce a b =
     (case a of Some x \<Rightarrow> x | None \<Rightarrow> (case b of Some y \<Rightarrow> y | None \<Rightarrow> []))"

text \<open>An optional field is used only under its truthiness test, where it is present; there
  the embedding reads it with \<^term>\<open>the\<close>.\<close>

definition buildPinpoint :: "ParsedCitation \<Rightarrow> bool \<Rightarrow> jstring" where
  "buildPinpoint parsed isJapanese =
     (let ref = (case article parsed of Some a \<Rightarrow> a | None \<Rightarrow> []);
          ref = (if \<not> isJapanese \<and> truthy_str (paragraph parsed)
                 then ref @ asc ''('' @ the (paragraph parsed) @ asc '')'' else ref);
          ref = (if \<not> isJapanese \<and> truthy_str (item parsed)
                 then ref @ asc ''('' @ the (item parsed) @ asc '')'' else ref)
      in ref)"

text \<open>The numeral put between the paragraph or item markers in the native style.\<close>

definition native_numeral :: "jstring \<Rightarrow> jstring" where
  "native_numeral s = (case parseInt10 s of None \<Rightarrow> s | Some n \<Rightarrow> arabicToKanji n)"

text \<open>The style is whatever string the caller passes; the \<^verbatim>\<open>switch\<close> has a
  \<^verbatim>\<open>default\<close> branch for a string that names no style.\<close>

definition formatCitation :: "ParsedCitation \<Rightarrow> jstring \<Rightarrow> jstring" where
  "formatCitation parsed format =
     (if \<not> valid parsed \<or> \<not> truthy_str (article parsed) then []
      else
        let pinpoint = buildPinpoint parsed (format = asc ''japanese'') in
        if format = asc ''full'' then
          (let name = coalesce (title_en parsed) (title parsed);
               actInfo = (if truthy_num (act_number parsed) \<and> truthy_num (year parsed)
                          then asc '' (Act No. '' @ num_to_string (the (act_number parsed))
                               @ asc '' of '' @ num_to_string (the (year parsed)) @ asc '')''
                          else [])
           in trim (asc ''Article '' @ pinpoint @ asc '', '' @ name @ actInfo))
        else if format = asc ''short'' then
          (let name = coalesce (title_en parsed) (title parsed)
           in trim (asc ''Art. '' @ pinpoint @ asc '', '' @ name))
        else if format = asc ''pinpoint'' then
          asc ''Art. '' @ pinpoint
        else if format = asc ''japanese'' then
          (let articleKanji = formatArticleKanji (AStr (the (article parsed)));
               ref = articleKanji;
               ref = (if truthy_str (paragraph parsed)
                      then ref @ [cu_dai] @ native_numeral (the (paragraph parsed)) @ [cu_ko]
                      else ref);
               ref = (if truthy_str (item parsed)
                      then ref @ [cu_dai] @ native_numeral (the (item parsed)) @ [cu_go]
                      else ref);
               name = coalesce (title parsed) (title_en parsed)
           in trim (ref @ asc '' '' @ name))
        else
          trim (asc ''Article '' @ pinpoint @ asc '', ''
                @ coalesce (title_en parsed) (title parsed)))"

section \<open>The citation validator (citation/validator)\<close>

text \<open>
  The database is the external collaborator. Its two prepared statements are taken as
  lookups from the bound parameters to the row found: the document query returns a row or
  nothing, the provision query returns whether a row exists.
\<close>

record Document =
  doc_id :: jstring
  doc_title :: jstring
  doc_title_en :: "jstring option"
  doc_status :: jstring

record Database =
  get_document :: "jstring \<Rightarrow> jstring \<Rightarrow> jstring \<Rightarrow> jstring \<Rightarrow> Document option"
  get_provision :: "jstring \<Rightarrow> jstring \<Rightarrow> jstring \<Rightarrow> jstring \<Rightarrow> bool"

definition validateCitation :: "Database \<Rightarrow> jstring \<Rightarrow> ValidationResult" where
  "validateCitation db citation =
     (let parsed = parseCitation citation in
      if \<not> valid parsed then
        \<lparr> vr_citation = parsed, vr_document_exists = False, vr_provision_exists = False,
          vr_document_title = None, vr_status = None,
          vr_warnings = [case error parsed of Some e \<Rightarrow> e
                         | None \<Rightarrow> asc ''Invalid citation format''] \<rparr>
      else
        let searchTerm = coalesce (title parsed) (title_en parsed);
            pattern = [0x25] @ searchTerm @ [0x25]
        in case get_document db pattern pattern pattern searchTerm of
             None \<Rightarrow>
               \<lparr> vr_citation = parsed, vr_document_exists = False, vr_provision_exists = False,
                 vr_document_title = None, vr_status = None,
                 vr_warnings = [asc ''Document '' @ [0x22] @ searchTerm @ [0x22]
                                @ asc '' not found in database''] \<rparr>
           | Some doc \<Rightarrow>
               let warnings = (if doc_status doc = asc ''repealed''
                               then [asc ''This statute has been repealed''] else []);
                   provisionExists =
                     (if truthy_str (article parsed)
                      then get_provision db (doc_id doc)
                             (asc ''art-'' @ the (article parsed))
                             (the (article parsed))
                             (asc ''art-'' @ the (article parsed) @ [0x25])
                      else False);
                   warnings = (if truthy_str (article parsed) \<and> \<not> provisionExists
                               then warnings @ [asc ''Article '' @ the (article parsed)
                                                @ asc '' not found in '' @ doc_title doc]
                               else warnings)
               in \<lparr> vr_citation = parsed, vr_document_exists = True,
                    vr_provision_exists = provisionExists,
                    vr_document_title = Some (doc_title doc),
                    vr_status = Some (doc_status doc),
                    vr_warnings = warnings \<rparr>)"

section \<open>The format tool (tools/format-citation)\<close>

record FormatCitationInput =
  fci_citation :: jstring
  fci_format :: "jstring option"

record FormatCitationResult =
  fcr_input :: jstring
  fcr_formatted :: jstring
  fcr_formatted_japanese :: jstring
  fcr_type :: jstring
  fcr_valid :: bool
  fcr_error :: "jstring option"

fun type_name :: "citation_type \<Rightarrow> jstring" where
  "type_name statute = asc ''statute''"
| "type_name cabinet_order = asc ''cabinet_order''"
| "type_name ministerial_ordinance = asc ''ministerial_ordinance''"
| "type_name unknown = asc ''unknown''"

text \<open>The \<^verbatim>\<open>results\<close> of the tool's response; its \<^verbatim>\<open>_metadata\<close> is a constant
  record that no statement here is about.\<close>

definition formatCitationTool :: "FormatCitationInput \<Rightarrow> FormatCitationResult" where
  "formatCitationTool inp =
     (if fci_citation inp = [] \<or> length (trim (fci_citation inp)) = 0 then
        \<lparr> fcr_input = [], fcr_formatted = [], fcr_formatted_japanese = [],
          fcr_type = asc ''unknown'', fcr_valid = False,
          fcr_error = Some (asc ''Empty citation'') \<rparr>
      else
        let parsed = parseCitation (fci_citation inp) in
        if \<not> valid parsed then
          \<lparr> fcr_input = fci_citation inp, fcr_formatted = fci_citation inp,
            fcr_formatted_japanese = [],
            fcr_type = asc ''unknown'', fcr_valid = False,
            fcr_error = error parsed \<rparr>
        else
          let formatted = formatCitation parsed
                            (case fci_format inp of Some f \<Rightarrow> f | None \<Rightarrow> asc ''full'');
              formattedJapanese = formatCitation parsed (asc ''japanese'')
          in \<lparr> fcr_input = fci_citation inp, fcr_formatted = formatted,
               fcr_formatted_japanese = formattedJapanese,
               fcr_type = type_name (type parsed), fcr_valid = True,
               fcr_error = None \<rparr>)"

section \<open>Auxiliary definitions\<close>

text \<open>One decimal place of \<^verbatim>\<open>arabicToKanji\<close>: the coefficient (omitted when it is 1)
  and the multiplier, or nothing when the coefficient is 0.\<close>

definition place :: "int \<Rightarrow> cu \<Rightarrow> jstring" where
  "place k m = (if k > 0 then (if k > 1 then digit_kanji k else []) @ [m] else [])"

definition ones_place :: "int \<Rightarrow> jstring" where
  "ones_place d = (if d > 0 then digit_kanji d else [])"

text \<open>An invariant of the captures: every string captured by group \<open>g\<close> satisfies
  \<open>Q g\<close>. \<open>caps_ok\<close> asks it of each capture group of a pattern, \<open>caps_sat\<close> of the
  captures of a match.\<close>

fun caps_ok :: "(nat \<Rightarrow> jstring \<Rightarrow> bool) \<Rightarrow> bool \<Rightarrow> jstring \<Rightarrow> rx \<Rightarrow> bool" where
  "caps_ok Q ic inp (Grp g r) =
     (caps_ok Q ic inp r \<and>
      (\<forall>i c j c'. (j, c') \<in> set (rmatch ic inp r (i, c)) \<longrightarrow> Q g (take (j - i) (drop i inp))))"
| "caps_ok Q ic inp (Cat r1 r2) = (caps_ok Q ic inp r1 \<and> caps_ok Q ic inp r2)"
| "caps_ok Q ic inp (Alt r1 r2) = (caps_ok Q ic inp r1 \<and> caps_ok Q ic inp r2)"
| "caps_ok Q ic inp (Opt r) = caps_ok Q ic inp r"
| "caps_ok Q ic inp r = True"

definition caps_sat :: "(nat \<Rightarrow> jstring \<Rightarrow> bool) \<Rightarrow> caps \<Rightarrow> bool" where
  "caps_sat Q c \<longleftrightarrow> (\<forall>g w. c g = Some w \<longrightarrow> Q g w)"

text \<open>The capture groups that every match of a pattern sets: those not under an option,
  and under an alternation those of both branches.\<close>

fun defined_groups :: "rx \<Rightarrow> nat set" where
  "defined_groups (Grp g r) = insert g (defined_groups r)"
| "defined_groups (Cat r1 r2) = defined_groups r1 \<union> defined_groups r2"
| "defined_groups (Alt r1 r2) = defined_groups r1 \<inter> defined_groups r2"
| "defined_groups r = {}"

text \<open>
  Where the integers of the embedding are the doubles of the code. An integer is exact when
  its magnitude is below \<open>2^53\<close>. In \<^verbatim>\<open>kanjiToArabic\<close> the positional reading stays below
  \<open>10^15\<close> when no more than 15 digit characters stand in a row, and the loop adds at most
  9000 for each unit of the string. \<open>numerals_exact\<close> asks for both: fewer than
  \<open>2^30\<close> units, and no more than 15 native digits in a row (lemma
  \<open>kanjiToArabic_exact\<close>).
\<close>

definition safe_integer :: "int \<Rightarrow> bool" where
  "safe_integer n \<longleftrightarrow> - (2 ^ 53) < n \<and> n < 2 ^ 53"

fun digit_runs_within :: "nat \<Rightarrow> nat \<Rightarrow> jstring \<Rightarrow> bool" where
  "digit_runs_within b k [] = (k \<le> b)"
| "digit_runs_within b k (c # cs) =
     (if KANJI_DIGITS c \<noteq> None then digit_runs_within b (Suc k) cs
      else k \<le> b \<and> digit_runs_within b 0 cs)"

definition numerals_exact :: "jstring \<Rightarrow> bool" where
  "numerals_exact s \<longleftrightarrow> length s < 2 ^ 30 \<and> digit_runs_within 15 0 s"

text \<open>The characters of a native numeral: the digits and the multipliers of the two
  tables of \<^verbatim>\<open>kanjiToArabic\<close>. A non-empty string of them that
  \<^verbatim>\<open>kanjiToArabic\<close> reads as \<open>n\<close> is a native numeral of \<open>n\<close>.\<close>

definition numeral_char :: "cu \<Rightarrow> bool" where
  "numeral_char c \<longleftrightarrow> KANJI_DIGITS c \<noteq> None \<or> KANJI_MULTIPLIERS c \<noteq> None"


text \<open>The three wrapper patterns differ in their closing marker only.\<close>

definition WRAPPER :: "cu \<Rightarrow> rx" where
  "WRAPPER a = seq [Bol, Ch (Lit cu_dai), Grp 1 (PlusLazy AnyChar), Ch (Lit a)]"

text \<open>What \<^verbatim>\<open>parseArticleNumber\<close>, \<^verbatim>\<open>parseParagraphNumber\<close> and
  \<^verbatim>\<open>parseItemNumber\<close> make of the text they have isolated (the capture of the wrapper
  pattern, or the whole trimmed reference when the pattern does not match).\<close>

definition numeral_text :: "jstring \<Rightarrow> jstring" where
  "numeral_text inner =
     (if test False DIGITS_ONLY inner then inner
      else let arabicNum = kanjiToArabic inner
           in if arabicNum > 0 then num_to_string arabicNum else inner)"

text \<open>
  How a numeric reference field \<open>w\<close> relates to the piece \<open>inner\<close> of the input it was
  taken from: a piece that is all digits is the field; a piece that
  \<^verbatim>\<open>kanjiToArabic\<close> reads as a positive number gives the decimal digits of that
  number; a piece that is neither (\<^verbatim>\<open>kanjiToArabic\<close> gives 0) is the field as it
  stands. \<open>taken_from s f\<close> says that the field \<open>f\<close>, when populated, is related in this
  way to a non-empty piece of \<open>s\<close> on which \<^verbatim>\<open>kanjiToArabic\<close> is exact;
  \<open>digits_or_absent f\<close> says that it is a non-empty string of the digits 0 to 9.
  \<open>native_grammar s\<close> holds when one of the two native patterns matches the trimmed
  input, the first two cases of \<^verbatim>\<open>parseCitation\<close>.
\<close>

definition normalizes :: "jstring \<Rightarrow> jstring \<Rightarrow> bool" where
  "normalizes inner w \<longleftrightarrow>
     (digit_string inner \<and> w = inner)
     \<or> (\<not> digit_string inner \<and> 0 < kanjiToArabic inner
          \<and> w = num_to_string (kanjiToArabic inner) \<and> digit_string w)
     \<or> (\<not> digit_string inner \<and> kanjiToArabic inner = 0 \<and> w = inner)"

definition digits_or_absent :: "jstring option \<Rightarrow> bool" where
  "digits_or_absent f = (case f of None \<Rightarrow> True | Some w \<Rightarrow> digit_string w)"

definition taken_from :: "jstring \<Rightarrow> jstring option \<Rightarrow> bool" where
  "taken_from s f =
     (case f of
        None \<Rightarrow> True
      | Some w \<Rightarrow>
          (\<exists>inner. inner \<noteq> [] \<and> sublist inner s \<and> safe_integer (kanjiToArabic inner)
                   \<and> normalizes inner w))"

definition native_grammar :: "jstring \<Rightarrow> bool" where
  "native_grammar s \<longleftrightarrow>
     exec False JAPANESE_CITATION (trim s) \<noteq> None
     \<or> exec False TRAILING_JAPANESE (trim s) \<noteq> None"

text \<open>Example data: the title of the Act on the Protection of Personal Information
  (U+500B U+4EBA U+60C5 U+5831 U+306E U+4FDD U+8B77 U+306B U+95A2 U+3059 U+308B U+6CD5 U+5F8B),
  the reference to article 17 (dai, U+5341 ten, U+4E03 seven, jo), the reference to
  article 17, paragraph 1, item 3, a valid citation without an article, and a database
  that holds one repealed statute and no provision.\<close>

definition appi_title :: jstring where
  "appi_title = [0x500B, 0x4EBA, 0x60C5, 0x5831, 0x306E, 0x4FDD, 0x8B77, 0x306B, 0x95A2,
                 0x3059, 0x308B, 0x6CD5, 0x5F8B]"

definition article_17 :: jstring where
  "article_17 = [cu_dai, 0x5341, 0x4E03, cu_jo]"

definition article_17_1_3 :: jstring where
  "article_17_1_3 =
     [cu_dai, 0x5341, 0x4E03, cu_jo, cu_dai, 0x4E00, cu_ko, cu_dai, 0x4E09, cu_go]"

definition no_article :: ParsedCitation where
  "no_article = \<lparr> valid = True, type = statute, title = Some appi_title, title_en = None,
                   law_number = None, year = None, act_number = None,
                   article = None, paragraph = None, item = None, error = None \<rparr>"

definition demo_doc :: Document where
  "demo_doc = \<lparr> doc_id = asc ''act-57-2003'', doc_title = asc ''APPI'',
                 doc_title_en = None, doc_status = asc ''repealed'' \<rparr>"

definition demo_db :: Database where
  "demo_db = \<lparr> get_document = (\<lambda>t1 t2 t3 i. if i = asc ''APPI'' then Some demo_doc else None),
                get_provision = (\<lambda>d r s p. False) \<rparr>"

section \<open>The numeral round trip\<close>

lemma digit_kanji_digit:
  assumes "1 \<le> k" "k \<le> 9"
  shows "\<exists>c. digit_kanji k = [c] \<and> KANJI_DIGITS c = Some k"
proof -
  have "k = 1 \<or> k = 2 \<or> k = 3 \<or> k = 4 \<or> k = 5 \<or> k = 6 \<or> k = 7 \<or> k = 8 \<or> k = 9"
    using assms by arith
  then show ?thesis
    by (elim disjE) (simp_all add: digit_kanji_def ARABIC_TO_KANJI_DIGITS_def KANJI_DIGITS_def)
qed

lemma loop_mult:
  "KANJI_DIGITS m = None \<Longrightarrow> KANJI_MULTIPLIERS m = Some v \<Longrightarrow>
   kanji_loop (m # rest) r c = kanji_loop rest (r + (if c = 0 then 1 else c) * v) 0"
  by simp

lemma loop_digit:
  "KANJI_DIGITS d = Some k \<Longrightarrow> kanji_loop (d # rest) r c = kanji_loop rest r k"
  by simp

lemma loop_place:
  assumes "0 \<le> k" "k \<le> 9" "KANJI_DIGITS m = None" "KANJI_MULTIPLIERS m = Some v"
  shows "kanji_loop (place k m @ rest) r 0 = kanji_loop rest (r + k * v) 0"
proof -
  consider "k = 0" | "k = 1" | "2 \<le> k" using assms(1) by linarith
  then show ?thesis
  proof cases
    case 1
    then show ?thesis by (simp add: place_def)
  next
    case 2
    then show ?thesis by (simp add: place_def loop_mult [OF assms(3,4)] del: kanji_loop.simps)
  next
    case 3
    then obtain c where c: "digit_kanji k = [c]" "KANJI_DIGITS c = Some k"
      using digit_kanji_digit [of k] assms(2) by auto
    from 3 show ?thesis
      by (simp add: place_def c loop_digit [OF c(2)] loop_mult [OF assms(3,4)] del: kanji_loop.simps)
  qed
qed

lemma loop_ones:
  assumes "0 \<le> k" "k \<le> 9"
  shows "kanji_loop (ones_place k) r 0 = r + k"
proof (cases "k = 0")
  case True
  then show ?thesis by (simp add: ones_place_def)
next
  case False
  then obtain c where c: "digit_kanji k = [c]" "KANJI_DIGITS c = Some k"
    using digit_kanji_digit [of k] assms by auto
  from False assms show ?thesis
    by (simp add: ones_place_def c)
qed

lemma rem_step:
  fixes x :: int
  assumes "0 < d" "0 < m" "d dvd m"
  shows "(if 0 < x mod m div d then x mod m mod d else x mod m) = x mod d"
proof -
  have A: "x mod m mod d = x mod d"
    using assms(3) by (simp add: mod_mod_cancel)
  show ?thesis
  proof (cases "0 < x mod m div d")
    case True
    then show ?thesis using A by simp
  next
    case False
    have "0 \<le> x mod m" using assms(2) by simp
    then have "0 \<le> x mod m div d" using assms(1) by (simp add: pos_imp_zdiv_nonneg_iff)
    with False have "x mod m div d = 0" by simp
    then have "x mod m < d" using assms(1) \<open>0 \<le> x mod m\<close>
      by (auto simp add: zdiv_eq_0_iff)
    then have "x mod m mod d = x mod m" using \<open>0 \<le> x mod m\<close> by simp
    with A False show ?thesis by simp
  qed
qed

lemma arabicToKanji_places:
  assumes "10 \<le> n"
  shows "arabicToKanji n =
     place (n div 1000) 0x5343 @ place (n mod 1000 div 100) 0x767E
       @ place (n mod 100 div 10) 0x5341 @ ones_place (n mod 10)"
proof -
  have rem1: "(if 0 < n div 1000 then n mod 1000 else n) = n mod 1000"
    using assms by simp
  have rem2: "(if 0 < n mod 1000 div 100 then n mod 1000 mod 100 else n mod 1000) = n mod 100"
    by (rule rem_step) simp_all
  have rem3: "(if 0 < n mod 100 div 10 then n mod 100 mod 10 else n mod 100) = n mod 10"
    by (rule rem_step) simp_all
  have "arabicToKanji n =
     (let r1 = place (n div 1000) 0x5343;
          r2 = r1 @ place (n mod 1000 div 100) 0x767E;
          r3 = r2 @ place (n mod 100 div 10) 0x5341
      in r3 @ ones_place (n mod 10))"
    using assms unfolding arabicToKanji_def Let_def rem1 rem2 rem3 place_def ones_place_def
    by simp
  then show ?thesis by (simp add: Let_def)
qed

lemma kanjiToArabic_with_multiplier:
  assumes "m \<in> set s" "KANJI_MULTIPLIERS m \<noteq> None" "KANJI_DIGITS m = None"
  shows "kanjiToArabic s = kanji_loop s 0 0"
proof -
  have ne: "s \<noteq> []" using assms(1) by auto
  have nd: "\<not> list_all (\<lambda>c. KANJI_DIGITS c \<noteq> None) s"
    using assms(1,3) by (auto simp add: list_all_iff)
  have "\<not> (length s = 1 \<and> KANJI_DIGITS (hd s) \<noteq> None)"
  proof
    assume h: "length s = 1 \<and> KANJI_DIGITS (hd s) \<noteq> None"
    then obtain x where "s = [x]" by (cases s) auto
    with assms(1,3) h show False by simp
  qed
  with ne nd show ?thesis unfolding kanjiToArabic_def by (simp only: if_False simp_thms)
qed

lemma place_has_multiplier: "0 < k \<Longrightarrow> m \<in> set (place k m)"
  by (simp add: place_def)

lemma kanjiToArabic_arabicToKanji: "1 \<le> n \<Longrightarrow> n \<le> 9999 \<Longrightarrow> kanjiToArabic (arabicToKanji n) = n"
proof -
  assume lo: "1 \<le> n" and hi: "n \<le> 9999"
  show ?thesis
  proof (cases "n \<le> 9")
    case True
    then obtain c where c: "digit_kanji n = [c]" "KANJI_DIGITS c = Some n"
      using digit_kanji_digit [of n] lo by auto
    from lo True have "arabicToKanji n = [c]" by (simp add: arabicToKanji_def c)
    then show ?thesis by (simp add: kanjiToArabic_def c)
  next
    case False
    then have ten: "10 \<le> n" by simp
    define a b c d where "a = n div 1000" and "b = n mod 1000 div 100"
      and "c = n mod 100 div 10" and "d = n mod 10"
    have s: "arabicToKanji n = place a 0x5343 @ place b 0x767E @ place c 0x5341 @ ones_place d"
      unfolding a_def b_def c_def d_def by (rule arabicToKanji_places [OF ten])
    have ra: "0 \<le> a" "a \<le> 9" using lo hi by (simp_all add: a_def)
    have rb: "0 \<le> b" "b \<le> 9" by (simp_all add: b_def)
    have rc: "0 \<le> c" "c \<le> 9" by (simp_all add: c_def)
    have rd: "0 \<le> d" "d \<le> 9" by (simp_all add: d_def)
    have "n = a * 1000 + n mod 1000"
      by (simp add: a_def)
    also have "n mod 1000 = b * 100 + n mod 1000 mod 100"
      by (simp add: b_def)
    also have "n mod 1000 mod 100 = n mod 100"
      by (simp add: mod_mod_cancel)
    also have "n mod 100 = c * 10 + n mod 100 mod 10"
      by (simp add: c_def)
    also have "n mod 100 mod 10 = d"
      by (simp add: d_def mod_mod_cancel)
    finally have sum: "n = a * 1000 + b * 100 + c * 10 + d"
      by simp
    have km: "KANJI_DIGITS 0x5343 = None" "KANJI_MULTIPLIERS 0x5343 = Some 1000"
      "KANJI_DIGITS 0x767E = None" "KANJI_MULTIPLIERS 0x767E = Some 100"
      "KANJI_DIGITS 0x5341 = None" "KANJI_MULTIPLIERS 0x5341 = Some 10"
      by (simp_all add: KANJI_DIGITS_def KANJI_MULTIPLIERS_def)
    have "0 < a \<or> 0 < b \<or> 0 < c" using ten sum ra rb rc rd by linarith
    then obtain m where "m \<in> set (arabicToKanji n)" "KANJI_MULTIPLIERS m \<noteq> None"
      "KANJI_DIGITS m = None"
      using km by (auto simp add: s dest: place_has_multiplier)
    then have "kanjiToArabic (arabicToKanji n) = kanji_loop (arabicToKanji n) 0 0"
      by (rule kanjiToArabic_with_multiplier)
    also have "\<dots> = kanji_loop (place b 0x767E @ place c 0x5341 @ ones_place d) (0 + a * 1000) 0"
      unfolding s by (rule loop_place [OF ra km(1,2)])
    also have "\<dots> = kanji_loop (place c 0x5341 @ ones_place d) (0 + a * 1000 + b * 100) 0"
      by (rule loop_place [OF rb km(3,4)])
    also have "\<dots> = kanji_loop (ones_place d) (0 + a * 1000 + b * 100 + c * 10) 0"
      by (rule loop_place [OF rc km(5,6)])
    also have "\<dots> = 0 + a * 1000 + b * 100 + c * 10 + d"
      by (rule loop_ones [OF rd])
    finally show ?thesis using sum by simp
  qed
qed

text \<open>
  Claim C3. For every integer \<open>n\<close> with \<open>1 \<le> n \<le> 9999\<close>, converting \<open>n\<close> to a native
  numeral string and back is the identity: \<open>kanjiToArabic (arabicToKanji n) = n\<close>.
\<close>

theorem kanji_roundtrip: "1 \<le> n \<Longrightarrow> n \<le> 9999 \<Longrightarrow> kanjiToArabic (arabicToKanji n) = n"
  by (rule kanjiToArabic_arabicToKanji)

theorem kanji_roundtrip_witness:
  "(1::int) \<le> 4072 \<and> (4072::int) \<le> 9999 \<and> kanjiToArabic (arabicToKanji 4072) = 4072"
proof -
  have lo: "(1::int) \<le> 4072" and hi: "(4072::int) \<le> 9999" by simp_all
  from lo hi kanji_roundtrip [OF lo hi] show ?thesis by blast
qed

section \<open>Captures of a match\<close>

lemma caps_sat_empty: "caps_sat Q Map.empty"
  by (simp add: caps_sat_def)

lemma rmatch_caps_sat:
  "caps_ok Q ic inp r \<Longrightarrow> caps_sat Q c \<Longrightarrow> (j, c') \<in> set (rmatch ic inp r (i, c))
   \<Longrightarrow> caps_sat Q c'"
proof (induction r arbitrary: i c j c')
  case (Cat r1 r2)
  from Cat.prems(3) obtain k d where
    1: "(k, d) \<in> set (rmatch ic inp r1 (i, c))" and 2: "(j, c') \<in> set (rmatch ic inp r2 (k, d))"
    by auto
  from Cat.prems(1) have ok: "caps_ok Q ic inp r1" "caps_ok Q ic inp r2" by simp_all
  have "caps_sat Q d" by (rule Cat.IH(1) [OF ok(1) Cat.prems(2) 1])
  then show ?case by (rule Cat.IH(2) [OF ok(2) _ 2])
next
  case (Grp g r)
  from Grp.prems(3) obtain d where
    1: "(j, d) \<in> set (rmatch ic inp r (i, c))" and 2: "c' = d(g \<mapsto> take (j - i) (drop i inp))"
    by auto
  from Grp.prems(1) have ok: "caps_ok Q ic inp r"
    and q: "Q g (take (j - i) (drop i inp))" using 1 by auto
  have "caps_sat Q d" by (rule Grp.IH [OF ok Grp.prems(2) 1])
  with q 2 show ?case by (simp add: caps_sat_def)
next
  case (Opt r)
  from Opt.prems(3) have "(j, c') \<in> set (rmatch ic inp r (i, c)) \<or> c' = c" by auto
  then show ?case
  proof
    assume 1: "(j, c') \<in> set (rmatch ic inp r (i, c))"
    from Opt.prems(1) have "caps_ok Q ic inp r" by simp
    then show ?thesis using Opt.prems(2) 1 by (rule Opt.IH)
  next
    assume "c' = c"
    with Opt.prems(2) show ?thesis by simp
  qed
next
  case (Alt r1 r2)
  from Alt.prems(1) have ok: "caps_ok Q ic inp r1" "caps_ok Q ic inp r2" by simp_all
  from Alt.prems(3) have
    "(j, c') \<in> set (rmatch ic inp r1 (i, c)) \<or> (j, c') \<in> set (rmatch ic inp r2 (i, c))"
    by simp
  then show ?case
    using Alt.IH(1) [OF ok(1) Alt.prems(2)] Alt.IH(2) [OF ok(2) Alt.prems(2)] by blast
next
  case Eps
  then show ?case by simp
next
  case (Ch k)
  then show ?case by (simp split: if_splits)
next
  case (Star k)
  then have "c' = c" by auto
  with Star.prems(2) show ?case by simp
next
  case (Plus k)
  then have "c' = c" by auto
  with Plus.prems(2) show ?case by simp
next
  case (PlusLazy k)
  then have "c' = c" by auto
  with PlusLazy.prems(2) show ?case by simp
next
  case Bol
  then show ?case by (simp split: if_splits)
next
  case Eol
  then show ?case by (simp split: if_splits)
qed

lemma exec_from_Some:
  "exec_from ic r inp is = Some m \<Longrightarrow> \<exists>i j. (j, m) \<in> set (rmatch ic inp r (i, Map.empty))"
proof (induction "is")
  case Nil
  then show ?case by simp
next
  case (Cons i "is")
  show ?case
  proof (cases "rmatch ic inp r (i, Map.empty)")
    case Nil
    with Cons show ?thesis by simp
  next
    case (Cons st rest)
    obtain j c where st: "st = (j, c)" by (cases st)
    with Cons Cons.prems \<open>rmatch ic inp r (i, Map.empty) = st # rest\<close>
    have "c = m" by simp
    with st \<open>rmatch ic inp r (i, Map.empty) = st # rest\<close>
    have "(j, m) \<in> set (rmatch ic inp r (i, Map.empty))" by simp
    then show ?thesis by blast
  qed
qed

lemma exec_caps_sat:
  assumes "caps_ok Q ic inp r" "exec ic r inp = Some m"
  shows "caps_sat Q m"
proof -
  from assms(2) obtain i j where "(j, m) \<in> set (rmatch ic inp r (i, Map.empty))"
    unfolding exec_def by (blast dest: exec_from_Some)
  with assms(1) caps_sat_empty show ?thesis by (rule rmatch_caps_sat)
qed

lemma take_run:
  assumes "n \<le> run ic k inp i"
  shows "\<forall>x \<in> set (take n (drop i inp)). cmatch ic k x"
proof -
  let ?xs = "drop i inp"
  have "take n ?xs = take n (takeWhile (cmatch ic k) ?xs @ dropWhile (cmatch ic k) ?xs)"
    by simp
  also have "\<dots> = take n (takeWhile (cmatch ic k) ?xs)"
    using assms by (simp add: run_def del: takeWhile_dropWhile_id)
  finally have "set (take n ?xs) \<subseteq> set (takeWhile (cmatch ic k) ?xs)"
    by (simp add: set_take_subset)
  then show ?thesis by (auto dest: set_takeWhileD)
qed

lemma run_le: "run ic k inp i \<le> length inp - i"
  unfolding run_def by (metis length_drop length_takeWhile_le)

lemma plus_digit_slice:
  assumes "(j, c') \<in> set (rmatch ic inp (Plus Digit) (i, c))"
  shows "digit_string (take (j - i) (drop i inp))"
proof -
  from assms obtain n where n: "j = i + n" "1 \<le> n" "n \<le> run ic Digit inp i"
    by auto
  have "\<forall>x \<in> set (take n (drop i inp)). is_digit x"
    using take_run [OF n(3)] by simp
  moreover have "take n (drop i inp) \<noteq> []"
    using n(2,3) run_le [of ic Digit inp i] by auto
  ultimately show ?thesis using n(1) by (simp add: digit_string_def list_all_iff)
qed

lemma test_digits_only:
  assumes "test ic DIGITS_ONLY s"
  shows "digit_string s"
proof -
  from assms obtain m where "exec ic DIGITS_ONLY s = Some m"
    by (auto simp add: test_def)
  then obtain i j where "(j, m) \<in> set (rmatch ic s DIGITS_ONLY (i, Map.empty))"
    unfolding exec_def by (blast dest: exec_from_Some)
  then obtain k d where i: "i = 0"
    and 1: "(k, d) \<in> set (rmatch ic s (Plus Digit) (0, Map.empty))" and 2: "k = length s"
    by (auto simp add: DIGITS_ONLY_def seq_def split: if_splits)
  from plus_digit_slice [OF 1] 2 show ?thesis by simp
qed

section \<open>The shape of the numeric reference fields\<close>

lemma is_digit_digit_cu: "d < 10 \<Longrightarrow> is_digit (digit_cu d)"
proof -
  assume "d < 10"
  then have "d = 0 \<or> d = 1 \<or> d = 2 \<or> d = 3 \<or> d = 4 \<or> d = 5 \<or> d = 6 \<or> d = 7 \<or> d = 8 \<or> d = 9"
    by arith
  then show ?thesis
    by (elim disjE) (simp_all add: digit_cu_def is_digit_def)
qed

lemma nat_to_string_digits: "digit_string (nat_to_string n)"
proof (induction n rule: nat_to_string.induct)
  case (1 n)
  show ?case
  proof (cases "n < 10")
    case True
    then show ?thesis
      by (simp add: nat_to_string.simps [of n] digit_string_def is_digit_digit_cu)
  next
    case False
    with 1 have "digit_string (nat_to_string (n div 10))" by simp
    moreover have "is_digit (digit_cu (n mod 10))" by (simp add: is_digit_digit_cu)
    ultimately show ?thesis using False
      by (simp add: nat_to_string.simps [of n] digit_string_def)
  qed
qed

lemma num_to_string_digits: "0 \<le> n \<Longrightarrow> digit_string (num_to_string n)"
  by (simp add: num_to_string_def nat_to_string_digits)

lemma parseArticleNumber_shape:
  "digit_string (parseArticleNumber r) \<or> \<not> 0 < kanjiToArabic (parseArticleNumber r)"
  by (auto simp add: parseArticleNumber_def Let_def num_to_string_digits
           dest: test_digits_only split: option.splits)

lemma parseParagraphNumber_shape:
  "digit_string (parseParagraphNumber r) \<or> \<not> 0 < kanjiToArabic (parseParagraphNumber r)"
  by (auto simp add: parseParagraphNumber_def Let_def num_to_string_digits
           dest: test_digits_only split: option.splits)

lemma parseItemNumber_shape:
  "digit_string (parseItemNumber r) \<or> \<not> 0 < kanjiToArabic (parseItemNumber r)"
  by (auto simp add: parseItemNumber_def Let_def num_to_string_digits
           dest: test_digits_only split: option.splits)

lemma caps_ok_ENGLISH_FULL:
  "caps_ok (\<lambda>g w. (g = 1 \<or> g = 2 \<or> g = 3) \<longrightarrow> digit_string w) True inp ENGLISH_FULL"
  by (simp add: ENGLISH_FULL_def seq_def lit_def plus_digit_slice del: rmatch.simps)

lemma caps_ok_SHORT_CITATION:
  "caps_ok (\<lambda>g w. (g = 1 \<or> g = 2) \<longrightarrow> digit_string w) True inp SHORT_CITATION"
  by (simp add: SHORT_CITATION_def seq_def lit_def plus_digit_slice del: rmatch.simps)

lemma caps_ok_ID_BASED:
  "caps_ok (\<lambda>g w. (g = 2 \<or> g = 3) \<longrightarrow> digit_string w) True inp ID_BASED"
  by (simp add: ID_BASED_def seq_def lit_def plus_digit_slice del: rmatch.simps)

lemma KANJI_DIGITS_range: "KANJI_DIGITS ch = Some d \<Longrightarrow> 0 \<le> d \<and> d \<le> 9"
  by (auto simp add: KANJI_DIGITS_def split: if_splits)

lemma KANJI_MULTIPLIERS_pos: "KANJI_MULTIPLIERS ch = Some m \<Longrightarrow> 0 < m"
  by (auto simp add: KANJI_MULTIPLIERS_def split: if_splits)

lemma kanji_loop_nonneg: "0 \<le> r \<Longrightarrow> 0 \<le> c \<Longrightarrow> 0 \<le> kanji_loop s r c"
proof (induction s arbitrary: r c)
  case Nil
  then show ?case by simp
next
  case (Cons ch s)
  show ?case
  proof (cases "KANJI_DIGITS ch")
    case (Some d)
    then have "0 \<le> d" by (simp add: KANJI_DIGITS_range)
    with Some Cons show ?thesis by simp
  next
    case None
    show ?thesis
    proof (cases "KANJI_MULTIPLIERS ch")
      case (Some m)
      then have "0 < m" by (rule KANJI_MULTIPLIERS_pos)
      with Cons.prems have "0 \<le> r + (if c = 0 then 1 else c) * m" by simp
      with None Some Cons.IH [of _ 0] show ?thesis by simp
    next
      case n2: None
      with None Cons show ?thesis by simp
    qed
  qed
qed

lemma digit_not_ws: "is_digit c \<Longrightarrow> \<not> is_ws c"
  by (auto simp add: is_digit_def is_ws_def word_le_def)

lemma digit_not_sign: "is_digit c \<Longrightarrow> c \<noteq> 0x2B \<and> c \<noteq> 0x2D"
  by (auto simp add: is_digit_def)

lemma parseInt10_digit_string:
  assumes "digit_string d"
  shows "parseInt10 d = Some (digits_value d)"
proof -
  from assms obtain x xs where d: "d = x # xs" and x: "is_digit x" and xs: "list_all is_digit xs"
    by (cases d) (auto simp add: digit_string_def)
  have tw: "takeWhile is_digit (x # xs) = x # xs"
    using x xs by (simp add: list_all_iff)
  show ?thesis
    unfolding parseInt10_def d using digit_not_ws [OF x] digit_not_sign [OF x] tw
    by (simp add: Let_def)
qed

lemma digit_val_nonneg: "is_digit c \<Longrightarrow> 0 \<le> digit_val c"
  by (simp add: is_digit_def digit_val_def word_le_def)

lemma foldl_digits_nonneg:
  "list_all is_digit ds \<Longrightarrow> 0 \<le> a \<Longrightarrow> 0 \<le> foldl (\<lambda>acc c. 10 * acc + digit_val c) a ds"
proof (induction ds arbitrary: a)
  case Nil
  then show ?case by simp
next
  case (Cons c ds)
  then have "0 \<le> 10 * a + digit_val c" using digit_val_nonneg [of c] by simp
  with Cons show ?case by simp
qed

lemma digits_value_nonneg: "digit_string ds \<Longrightarrow> 0 \<le> digits_value ds"
  by (simp add: digits_value_def digit_string_def foldl_digits_nonneg)

lemma positional_digit_string:
  assumes "kanji \<noteq> []" "list_all (\<lambda>c. KANJI_DIGITS c \<noteq> None) kanji"
  shows "digit_string (concat (map (\<lambda>c. num_to_string (the (KANJI_DIGITS c))) kanji))"
proof -
  have each: "digit_string (num_to_string (the (KANJI_DIGITS c)))" if "c \<in> set kanji" for c
  proof -
    from that assms(2) obtain d where "KANJI_DIGITS c = Some d" by (auto simp add: list_all_iff)
    then show ?thesis using KANJI_DIGITS_range [of c d] by (simp add: num_to_string_digits)
  qed
  from assms(1) obtain x xs where k: "kanji = x # xs" by (cases kanji) auto
  have "concat (map (\<lambda>c. num_to_string (the (KANJI_DIGITS c))) kanji) \<noteq> []"
    using each [of x] by (simp add: k digit_string_def)
  moreover have "list_all is_digit (concat (map (\<lambda>c. num_to_string (the (KANJI_DIGITS c))) kanji))"
    using each by (auto simp add: list_all_iff digit_string_def)
  ultimately show ?thesis by (simp add: digit_string_def)
qed

lemma kanjiToArabic_nonneg: "0 \<le> kanjiToArabic kanji"
proof -
  have 1: "0 \<le> the (parseInt10 (concat (map (\<lambda>c. num_to_string (the (KANJI_DIGITS c))) kanji)))"
    if "kanji \<noteq> []" "list_all (\<lambda>c. KANJI_DIGITS c \<noteq> None) kanji"
    using positional_digit_string [OF that]
    by (simp add: parseInt10_digit_string digits_value_nonneg)
  have 2: "0 \<le> the (KANJI_DIGITS (hd kanji))" if "KANJI_DIGITS (hd kanji) \<noteq> None"
    using that KANJI_DIGITS_range [of "hd kanji"] by auto
  show ?thesis
    unfolding kanjiToArabic_def using 1 2 by (simp add: kanji_loop_nonneg)
qed

lemma or_undefined_Some: "or_undefined x = Some w \<Longrightarrow> x = Some w"
  by (auto simp add: or_undefined_def split: option.splits list.splits)

section \<open>Captures the code relies on\<close>

lemma rmatch_defined:
  "(j, c') \<in> set (rmatch ic inp r (i, c)) \<Longrightarrow> dom c \<subseteq> dom c' \<and> defined_groups r \<subseteq> dom c'"
proof (induction r arbitrary: i c j c')
  case (Cat r1 r2)
  from Cat.prems obtain k d where
    1: "(k, d) \<in> set (rmatch ic inp r1 (i, c))" and 2: "(j, c') \<in> set (rmatch ic inp r2 (k, d))"
    by auto
  from Cat.IH(1) [OF 1] Cat.IH(2) [OF 2] show ?case
    unfolding defined_groups.simps by blast
next
  case (Grp g r)
  from Grp.prems obtain d where
    1: "(j, d) \<in> set (rmatch ic inp r (i, c))" and 2: "c' = d(g \<mapsto> take (j - i) (drop i inp))"
    by auto
  from 2 have "dom c' = insert g (dom d)" by simp
  with Grp.IH [OF 1] show ?case
    unfolding defined_groups.simps by blast
next
  case (Opt r)
  from Opt.prems have "(j, c') \<in> set (rmatch ic inp r (i, c)) \<or> c' = c" by auto
  then show ?case
  proof
    assume "(j, c') \<in> set (rmatch ic inp r (i, c))"
    from Opt.IH [OF this] show ?thesis unfolding defined_groups.simps by blast
  next
    assume "c' = c"
    then show ?thesis unfolding defined_groups.simps by blast
  qed
next
  case (Alt r1 r2)
  from Alt.prems have
    "(j, c') \<in> set (rmatch ic inp r1 (i, c)) \<or> (j, c') \<in> set (rmatch ic inp r2 (i, c))"
    by simp
  then show ?case
  proof
    assume "(j, c') \<in> set (rmatch ic inp r1 (i, c))"
    from Alt.IH(1) [OF this] show ?thesis unfolding defined_groups.simps by blast
  next
    assume "(j, c') \<in> set (rmatch ic inp r2 (i, c))"
    from Alt.IH(2) [OF this] show ?thesis unfolding defined_groups.simps by blast
  qed
next
  case Eps
  then show ?case by simp
next
  case (Ch k)
  then show ?case by (simp split: if_splits)
next
  case (Star k)
  then have "c' = c" by auto
  then show ?case by simp
next
  case (Plus k)
  then have "c' = c" by auto
  then show ?case by simp
next
  case (PlusLazy k)
  then have "c' = c" by auto
  then show ?case by simp
next
  case Bol
  then show ?case by (simp split: if_splits)
next
  case Eol
  then show ?case by (simp split: if_splits)
qed

lemma exec_defined:
  assumes "exec ic r inp = Some m" "g \<in> defined_groups r"
  shows "\<exists>w. m g = Some w"
proof -
  from assms(1) obtain i j where "(j, m) \<in> set (rmatch ic inp r (i, Map.empty))"
    unfolding exec_def by (blast dest: exec_from_Some)
  from rmatch_defined [OF this] assms(2) show ?thesis by blast
qed

lemma pluslazy_bounds:
  assumes "(j, c') \<in> set (rmatch ic inp (PlusLazy k) (i, c))"
  shows "i < j \<and> i < length inp"
proof -
  from assms obtain n where n: "j = i + n" "1 \<le> n" "n \<le> run ic k inp i"
    by auto
  then show ?thesis using run_le [of ic k inp i] by auto
qed

lemma in_set_dropWhile: "x \<in> set xs \<Longrightarrow> \<not> P x \<Longrightarrow> x \<in> set (dropWhile P xs)"
  by (induction xs) auto

lemma trim_nonempty: "x \<in> set s \<Longrightarrow> \<not> is_ws x \<Longrightarrow> trim s \<noteq> []"
proof -
  assume x: "x \<in> set s" "\<not> is_ws x"
  then have "x \<in> set (rev (dropWhile is_ws s))" by (simp add: in_set_dropWhile)
  then have "x \<in> set (dropWhile is_ws (rev (dropWhile is_ws s)))"
    using x(2) by (rule in_set_dropWhile)
  then have "0 < length (dropWhile is_ws (rev (dropWhile is_ws s)))"
    by (rule length_pos_if_in_set)
  then show ?thesis by (simp add: trim_def)
qed

lemma caps_ok_JO_WRAPPER: "caps_ok (\<lambda>g w. w \<noteq> []) False inp JO_WRAPPER"
  by (auto simp add: JO_WRAPPER_def seq_def simp del: rmatch.simps dest: pluslazy_bounds)

lemma ARTICLE_PART_dai:
  assumes "exec False ARTICLE_PART s = Some m"
  shows "cu_dai \<in> set s"
proof -
  from assms obtain i j where "(j, m) \<in> set (rmatch False s ARTICLE_PART (i, Map.empty))"
    unfolding exec_def by (blast dest: exec_from_Some)
  then have "i < length s \<and> s ! i = cu_dai"
    by (auto simp add: ARTICLE_PART_def seq_def canon_def split: if_splits)
  then show ?thesis by (metis nth_mem)
qed

lemma dai_not_ws: "\<not> is_ws cu_dai"
  by (simp add: is_ws_def cu_dai_def)

lemma digit_string_nonempty: "digit_string w \<Longrightarrow> w \<noteq> []"
  by (simp add: digit_string_def)

lemma num_to_string_nonempty: "num_to_string n \<noteq> []"
  using nat_to_string_digits [of "nat n"] by (simp add: num_to_string_def digit_string_def)

lemma parseArticleNumber_nonempty:
  assumes "trim r \<noteq> []"
  shows "parseArticleNumber r \<noteq> []"
proof (cases "exec False JO_WRAPPER (trim r)")
  case None
  then show ?thesis using assms
    by (simp add: parseArticleNumber_def Let_def num_to_string_nonempty)
next
  case (Some m)
  have "1 \<in> defined_groups JO_WRAPPER" by (simp add: JO_WRAPPER_def seq_def)
  from exec_defined [OF Some this] obtain w where w: "m 1 = Some w" by blast
  have "w \<noteq> []"
    using exec_caps_sat [OF caps_ok_JO_WRAPPER Some] w by (simp add: caps_sat_def)
  then show ?thesis using Some w
    by (simp add: parseArticleNumber_def Let_def num_to_string_nonempty)
qed

lemma parseJapaneseRef_article_nonempty:
  assumes "article (parseJapaneseRef a b) = Some w"
  shows "w \<noteq> []"
proof (cases "exec False ARTICLE_PART a")
  case None
  with assms show ?thesis by (simp add: parseJapaneseRef_def Let_def)
next
  case (Some m)
  then have "cu_dai \<in> set a" by (rule ARTICLE_PART_dai)
  then have "trim a \<noteq> []" using dai_not_ws by (rule trim_nonempty)
  then have "parseArticleNumber a \<noteq> []" by (rule parseArticleNumber_nonempty)
  with assms Some show ?thesis by (simp add: parseJapaneseRef_def Let_def)
qed

lemma parseCitation_article_nonempty:
  assumes "article (parseCitation s) = Some w"
  shows "w \<noteq> []"
proof -
  let ?t = "trim s"
  show ?thesis
  proof (cases "exec False JAPANESE_CITATION ?t")
    case (Some m)
    with assms show ?thesis
      by (auto simp add: parseCitation_def dest: parseJapaneseRef_article_nonempty)
  next
    case j: None
    show ?thesis
    proof (cases "exec False TRAILING_JAPANESE ?t")
      case (Some m)
      with j assms show ?thesis
        by (auto simp add: parseCitation_def dest: parseJapaneseRef_article_nonempty)
    next
      case t: None
      show ?thesis
      proof (cases "exec True ENGLISH_FULL ?t")
        case (Some m)
        with j t assms have "m 1 = Some w" by (simp add: parseCitation_def)
        with exec_caps_sat [OF caps_ok_ENGLISH_FULL Some] show ?thesis
          by (auto simp add: caps_sat_def digit_string_def)
      next
        case e: None
        show ?thesis
        proof (cases "exec True SHORT_CITATION ?t")
          case (Some m)
          with j t e assms have "m 1 = Some w" by (simp add: parseCitation_def)
          with exec_caps_sat [OF caps_ok_SHORT_CITATION Some] show ?thesis
            by (auto simp add: caps_sat_def digit_string_def)
        next
          case sh: None
          show ?thesis
          proof (cases "exec True ID_BASED ?t")
            case (Some m)
            with j t e sh assms have "m 2 = Some w" by (simp add: parseCitation_def Let_def)
            with exec_caps_sat [OF caps_ok_ID_BASED Some] show ?thesis
              by (auto simp add: caps_sat_def digit_string_def)
          next
            case None
            with j t e sh assms show ?thesis by (simp add: parseCitation_def)
          qed
        qed
      qed
    qed
  qed
qed

text \<open>Every capture group that the code reads without a test stands on the path of every
  match of its pattern, so it is set whenever the pattern matches.\<close>

lemma groups_read_are_defined:
  "{1, 2} \<subseteq> defined_groups JAPANESE_CITATION"
  "{1, 2} \<subseteq> defined_groups TRAILING_JAPANESE"
  "{1, 4} \<subseteq> defined_groups ENGLISH_FULL"
  "{1, 3} \<subseteq> defined_groups SHORT_CITATION"
  "{1, 2} \<subseteq> defined_groups ID_BASED"
  "{1, 2} \<subseteq> defined_groups ID_PARTS"
  "1 \<in> defined_groups PARAGRAPH_PART"
  "1 \<in> defined_groups ITEM_PART"
  "1 \<in> defined_groups JO_WRAPPER"
  "1 \<in> defined_groups KOU_WRAPPER"
  "1 \<in> defined_groups GO_WRAPPER"
  by (simp_all add: JAPANESE_CITATION_def TRAILING_JAPANESE_def ENGLISH_FULL_def
        SHORT_CITATION_def ID_BASED_def ID_PARTS_def PARAGRAPH_PART_def ITEM_PART_def
        JO_WRAPPER_def KOU_WRAPPER_def GO_WRAPPER_def seq_def lit_def)

section \<open>The digits test\<close>

lemma exec_from_None:
  "exec_from ic r inp is = None \<Longrightarrow> i \<in> set is \<Longrightarrow> rmatch ic inp r (i, Map.empty) = []"
  by (induction "is") (auto split: list.splits)

lemma run_all:
  assumes "list_all (cmatch ic k) inp"
  shows "run ic k inp 0 = length inp"
proof -
  from assms have tw: "takeWhile (cmatch ic k) inp = inp"
    by (simp add: list_all_iff)
  show ?thesis unfolding run_def by (simp only: drop_0 tw)
qed

lemma digit_string_test:
  assumes "digit_string s"
  shows "test ic DIGITS_ONLY s"
proof (rule ccontr)
  assume "\<not> test ic DIGITS_ONLY s"
  then have "exec_from ic DIGITS_ONLY s [0 ..< Suc (length s)] = None"
    by (simp add: test_def exec_def)
  moreover have "0 \<in> set [0 ..< Suc (length s)]" by simp
  ultimately have none: "rmatch ic s DIGITS_ONLY (0, Map.empty) = []"
    by (rule exec_from_None)
  from assms have ne: "s \<noteq> []" and all: "list_all (cmatch ic Digit) s"
    by (simp_all add: digit_string_def list_all_iff)
  have r: "run ic Digit s 0 = length s" by (rule run_all [OF all])
  from ne have "Suc 0 \<le> length s" by (cases s) auto
  then have "(length s, Map.empty) \<in> set (rmatch ic s DIGITS_ONLY (0, Map.empty))"
    by (auto simp add: DIGITS_ONLY_def seq_def r image_iff)
  with none show False by simp
qed

lemma test_digits_only_iff: "test ic DIGITS_ONLY s \<longleftrightarrow> digit_string s"
  by (blast intro: test_digits_only digit_string_test)

section \<open>The exact range\<close>

text \<open>Under \<open>numerals_exact\<close> the converter stays in the exact range on every substring of
  the input, and every string the parser gives to the converter is such a substring: it is
  reached from the input by trimming and by capturing.\<close>

lemma KANJI_MULTIPLIERS_le: "KANJI_MULTIPLIERS ch = Some m \<Longrightarrow> m \<le> 1000"
  by (auto simp add: KANJI_MULTIPLIERS_def split: if_splits)

lemma kanji_loop_bound:
  "0 \<le> r \<Longrightarrow> 0 \<le> c \<Longrightarrow> c \<le> 9 \<Longrightarrow> kanji_loop w r c \<le> r + 9000 * int (length w) + 9"
proof (induction w arbitrary: r c)
  case Nil
  then show ?case by simp
next
  case (Cons ch w)
  show ?case
  proof (cases "KANJI_DIGITS ch")
    case (Some d)
    then have "0 \<le> d" "d \<le> 9" using KANJI_DIGITS_range [of ch d] by simp_all
    with Cons.IH [of r d] Cons.prems(1) Some show ?thesis by simp
  next
    case None
    show ?thesis
    proof (cases "KANJI_MULTIPLIERS ch")
      case (Some m)
      then have m: "0 < m" "m \<le> 1000"
        by (simp_all add: KANJI_MULTIPLIERS_pos KANJI_MULTIPLIERS_le)
      let ?k = "if c = 0 then 1 else c"
      have k: "0 \<le> ?k" "?k \<le> 9" using Cons.prems by simp_all
      have "?k * m \<le> 9 * 1000"
        using k m by (intro mult_mono) simp_all
      moreover have "0 \<le> ?k * m" using k m by simp
      ultimately have "0 \<le> r + ?k * m" "r + ?k * m \<le> r + 9000"
        using Cons.prems(1) by simp_all
      with Cons.IH [of "r + ?k * m" 0] None Some show ?thesis by simp
    next
      case n2: None
      with None Cons.IH [of r c] Cons.prems show ?thesis by simp
    qed
  qed
qed

lemma digit_val_le: "is_digit c \<Longrightarrow> digit_val c \<le> 9"
  by (simp add: is_digit_def digit_val_def word_le_def)

lemma foldl_digits_bound:
  "list_all is_digit ds \<Longrightarrow> 0 \<le> a \<Longrightarrow>
   foldl (\<lambda>acc c. 10 * acc + digit_val c) a ds < (a + 1) * 10 ^ length ds"
proof (induction ds arbitrary: a)
  case Nil
  then show ?case by simp
next
  case (Cons c ds)
  then have c: "0 \<le> digit_val c" "digit_val c \<le> 9"
    by (simp_all add: digit_val_nonneg digit_val_le)
  with Cons.prems have a': "0 \<le> 10 * a + digit_val c" by simp
  from Cons.prems have "list_all is_digit ds" by simp
  from Cons.IH [OF this a']
  have "foldl (\<lambda>acc c. 10 * acc + digit_val c) (10 * a + digit_val c) ds
          < (10 * a + digit_val c + 1) * 10 ^ length ds" .
  also have "\<dots> \<le> (10 * a + 10) * 10 ^ length ds"
    using c by (intro mult_right_mono) simp_all
  also have "\<dots> = (a + 1) * 10 ^ length (c # ds)" by (simp add: algebra_simps)
  finally show ?case by simp
qed

lemma digits_value_bound: "digit_string ds \<Longrightarrow> digits_value ds < 10 ^ length ds"
  using foldl_digits_bound [of ds 0] by (simp add: digits_value_def digit_string_def)

lemma num_to_string_digit: "0 \<le> d \<Longrightarrow> d \<le> 9 \<Longrightarrow> length (num_to_string d) = 1"
  by (simp add: num_to_string_def nat_to_string.simps [of "nat d"])

lemma positional_length:
  assumes "list_all (\<lambda>c. KANJI_DIGITS c \<noteq> None) kanji"
  shows "length (concat (map (\<lambda>c. num_to_string (the (KANJI_DIGITS c))) kanji)) = length kanji"
  using assms
proof (induction kanji)
  case Nil
  then show ?case by simp
next
  case (Cons c cs)
  then obtain d where d: "KANJI_DIGITS c = Some d" by auto
  then have "length (num_to_string d) = 1"
    using KANJI_DIGITS_range [of c d] by (simp add: num_to_string_digit)
  with Cons d show ?case by simp
qed

lemma runs_counter: "digit_runs_within b k s \<Longrightarrow> k \<le> b"
proof (induction s arbitrary: k)
  case Nil
  then show ?case by simp
next
  case (Cons c s)
  show ?case
  proof (cases "KANJI_DIGITS c \<noteq> None")
    case True
    with Cons.prems have "digit_runs_within b (Suc k) s" by simp
    from Cons.IH [OF this] show ?thesis by simp
  next
    case False
    with Cons.prems show ?thesis by simp
  qed
qed

lemma runs_prefix_digits:
  "digit_runs_within b k (w @ q) \<Longrightarrow> list_all (\<lambda>c. KANJI_DIGITS c \<noteq> None) w \<Longrightarrow>
   k + length w \<le> b"
proof (induction w arbitrary: k)
  case Nil
  then show ?case by (simp add: runs_counter)
next
  case (Cons x w)
  then have "digit_runs_within b (Suc k) (w @ q)" by auto
  with Cons show ?case by fastforce
qed

lemma runs_suffix: "digit_runs_within b k (p @ t) \<Longrightarrow> \<exists>k'. digit_runs_within b k' t"
  by (induction p arbitrary: k) (auto split: if_splits)

lemma runs_sublist_digits:
  assumes "digit_runs_within b 0 s" "sublist w s" "list_all (\<lambda>c. KANJI_DIGITS c \<noteq> None) w"
  shows "length w \<le> b"
proof -
  from assms(2) obtain p q where "s = p @ w @ q" by (auto simp add: sublist_def)
  with assms(1) obtain k' where "digit_runs_within b k' (w @ q)"
    by (blast dest: runs_suffix)
  from runs_prefix_digits [OF this assms(3)] show ?thesis by simp
qed

lemma kanjiToArabic_exact:
  assumes "numerals_exact s" "sublist w s"
  shows "safe_integer (kanjiToArabic w)"
proof -
  from assms have len: "length w < 2 ^ 30"
    using sublist_length_le [of w s] by (simp add: numerals_exact_def)
  have lo: "0 \<le> kanjiToArabic w" by (rule kanjiToArabic_nonneg)
  let ?ds = "concat (map (\<lambda>c. num_to_string (the (KANJI_DIGITS c))) w)"
  have pos: "the (parseInt10 ?ds) < 2 ^ 53"
    if ne: "w \<noteq> []" and all: "list_all (\<lambda>c. KANJI_DIGITS c \<noteq> None) w"
  proof -
    from ne all have ds: "digit_string ?ds" by (rule positional_digit_string)
    from all have l: "length ?ds = length w" by (rule positional_length)
    from all assms have "length w \<le> 15"
      by (auto simp add: numerals_exact_def intro: runs_sublist_digits)
    then have "(10::int) ^ length w \<le> 10 ^ 15"
      by (rule power_increasing) simp
    with digits_value_bound [OF ds] l have "digits_value ?ds < 10 ^ 15"
      by (simp only:)
    then show ?thesis
      by (simp add: parseInt10_digit_string [OF ds])
  qed
  have single: "the (KANJI_DIGITS (hd w)) < 2 ^ 53" if "KANJI_DIGITS (hd w) \<noteq> None"
    using that KANJI_DIGITS_range [of "hd w"] by auto
  have loop: "kanji_loop w 0 0 < 2 ^ 53"
    using kanji_loop_bound [of 0 0 w] len by simp
  have "kanjiToArabic w < 2 ^ 53"
    unfolding kanjiToArabic_def using pos single loop by simp
  with lo show ?thesis by (simp add: safe_integer_def)
qed

lemma sublist_trim: "sublist (trim s) s"
proof -
  have "sublist (rev (dropWhile is_ws (rev (dropWhile is_ws s)))) (dropWhile is_ws s)"
    by (simp add: sublist_rev_left)
  moreover have "sublist (dropWhile is_ws s) s" by simp
  ultimately show ?thesis unfolding trim_def by (rule sublist_order.order_trans)
qed

lemma caps_ok_sublist: "caps_ok (\<lambda>g w. sublist w inp) ic inp r"
proof (induction r)
  case (Grp g r)
  have "sublist (take n (drop i inp)) inp" for n i
    by (rule sublist_order.order_trans [of _ "drop i inp"]) simp_all
  with Grp show ?case by simp
qed simp_all

lemma exec_capture_sublist:
  "exec ic r inp = Some m \<Longrightarrow> m g = Some w \<Longrightarrow> sublist w inp"
  using exec_caps_sat [OF caps_ok_sublist, of ic r inp m] by (simp add: caps_sat_def)

section \<open>Native numerals between the wrapper markers\<close>

lemma numeral_char_props:
  assumes "numeral_char c"
  shows "\<not> is_line_terminator c" "\<not> is_ws c" "\<not> is_digit c"
    "c \<noteq> cu_dai" "c \<noteq> cu_jo" "c \<noteq> cu_ko" "c \<noteq> cu_go"
  using assms
  by (auto simp add: numeral_char_def KANJI_DIGITS_def KANJI_MULTIPLIERS_def
        is_line_terminator_def is_ws_def is_digit_def cu_dai_def cu_jo_def cu_ko_def cu_go_def
        split: if_splits)

lemma place_chars:
  assumes "0 \<le> k" "k \<le> 9" "KANJI_MULTIPLIERS m \<noteq> None"
  shows "\<forall>c \<in> set (place k m). numeral_char c"
proof (cases "2 \<le> k")
  case True
  then obtain c where "digit_kanji k = [c]" "KANJI_DIGITS c = Some k"
    using digit_kanji_digit [of k] assms(2) by auto
  with True assms(3) show ?thesis by (simp add: place_def numeral_char_def)
next
  case False
  with assms(3) show ?thesis by (simp add: place_def numeral_char_def)
qed

lemma ones_place_chars:
  assumes "0 \<le> k" "k \<le> 9"
  shows "\<forall>c \<in> set (ones_place k). numeral_char c"
proof (cases "1 \<le> k")
  case True
  then obtain c where "digit_kanji k = [c]" "KANJI_DIGITS c = Some k"
    using digit_kanji_digit [of k] assms(2) by auto
  with True show ?thesis by (simp add: ones_place_def numeral_char_def)
next
  case False
  then show ?thesis by (simp add: ones_place_def)
qed

lemma arabicToKanji_chars:
  assumes "1 \<le> n" "n \<le> 9999"
  shows "arabicToKanji n \<noteq> [] \<and> (\<forall>c \<in> set (arabicToKanji n). numeral_char c)"
proof (cases "n \<le> 9")
  case True
  then obtain c where c: "digit_kanji n = [c]" "KANJI_DIGITS c = Some n"
    using digit_kanji_digit [of n] assms(1) by auto
  from assms(1) True have "arabicToKanji n = [c]" by (simp add: arabicToKanji_def c)
  with c show ?thesis by (simp add: numeral_char_def)
next
  case False
  then have ten: "10 \<le> n" by simp
  have m: "KANJI_MULTIPLIERS 0x5343 \<noteq> None" "KANJI_MULTIPLIERS 0x767E \<noteq> None"
    "KANJI_MULTIPLIERS 0x5341 \<noteq> None"
    by (simp_all add: KANJI_MULTIPLIERS_def)
  have ra: "0 \<le> n div 1000" "n div 1000 \<le> 9" using assms by simp_all
  have rb: "0 \<le> n mod 1000 div 100" "n mod 1000 div 100 \<le> 9" by simp_all
  have rc: "0 \<le> n mod 100 div 10" "n mod 100 div 10 \<le> 9" by simp_all
  have rd: "0 \<le> n mod 10" "n mod 10 \<le> 9" by simp_all
  have chars: "\<forall>c \<in> set (arabicToKanji n). numeral_char c"
    unfolding arabicToKanji_places [OF ten]
    using place_chars [OF ra m(1)] place_chars [OF rb m(2)] place_chars [OF rc m(3)]
      ones_place_chars [OF rd]
    by auto
  have "kanjiToArabic (arabicToKanji n) = n" using assms by (rule kanjiToArabic_arabicToKanji)
  with assms(1) have "arabicToKanji n \<noteq> []" by (auto simp add: kanjiToArabic_def)
  with chars show ?thesis by simp
qed

lemma concat_map_single:
  assumes "m \<in> set ns" "distinct ns" "\<forall>n \<in> set ns. n \<noteq> m \<longrightarrow> g n = []"
  shows "concat (map g ns) = g m"
  using assms
proof (induction ns)
  case Nil
  then show ?case by simp
next
  case (Cons a ns)
  show ?case
  proof (cases "a = m")
    case True
    with Cons.prems have "\<forall>n \<in> set ns. g n = []" by auto
    then have "concat (map g ns) = []" by simp
    with True show ?thesis by simp
  next
    case False
    with Cons.prems have "g a = []" "m \<in> set ns" "distinct ns"
      "\<forall>n \<in> set ns. n \<noteq> m \<longrightarrow> g n = []" by auto
    with Cons.IH show ?thesis by simp
  qed
qed

lemma trim_id:
  assumes "s \<noteq> []" "\<not> is_ws (hd s)" "\<not> is_ws (last s)"
  shows "trim s = s"
proof -
  from assms(1,2) have 1: "dropWhile is_ws s = s" by (cases s) auto
  from assms(1,3) have 2: "dropWhile is_ws (rev s) = rev s"
    by (cases "rev s") (auto simp add: hd_rev [symmetric] simp del: rev_is_Nil_conv)
  show ?thesis by (simp add: trim_def 1 2)
qed

lemma exec_head:
  assumes "rmatch ic inp r (0, Map.empty) = (j, c) # rest"
  shows "exec ic r inp = Some c"
proof -
  have "[0 ..< Suc (length inp)] = 0 # [Suc 0 ..< Suc (length inp)]"
    by (rule upt_conv_Cons) simp
  then show ?thesis using assms by (simp only: exec_def exec_from.simps list.case prod.case)
qed

lemma exec_WRAPPER:
  assumes "x \<noteq> []" and "\<forall>c \<in> set x. \<not> is_line_terminator c \<and> c \<noteq> a"
    and "\<not> is_line_terminator a"
  shows "exec False (WRAPPER a) (cu_dai # x @ [a]) = Some [1 \<mapsto> x]"
proof -
  let ?t = "cu_dai # x @ [a]"
  let ?L = "length x"
  let ?g = "\<lambda>n. rmatch False ?t (Cat (Ch (Lit a)) Eps)
                  (1 + n, [1 \<mapsto> take (1 + n - 1) (drop 1 ?t)])"
  have "takeWhile (cmatch False AnyChar) (x @ [a]) = x @ [a]"
    using assms(2,3) by simp
  then have run: "run False AnyChar ?t (Suc 0) = Suc ?L"
    by (simp add: run_def)
  have gL: "?g ?L = [(?L + 2, [1 \<mapsto> x])]"
    by (simp add: canon_def nth_append)
  have gn: "?g n = []" if "n \<in> set [1 ..< Suc (?L + 1)]" "n \<noteq> ?L" for n
  proof (cases "n < ?L")
    case True
    then have "?t ! (1 + n) = x ! n" by (simp add: nth_append)
    moreover from True have "x ! n \<in> set x" by simp
    ultimately have "?t ! (1 + n) \<noteq> a" using assms(2) by auto
    then show ?thesis by (simp add: canon_def)
  next
    case False
    with that have "n = ?L + 1" by simp
    then show ?thesis by simp
  qed
  have mem: "?L \<in> set [1 ..< Suc (?L + 1)]" using assms(1) by (cases x) auto
  have "rmatch False ?t (Cat (Grp 1 (PlusLazy AnyChar)) (Cat (Ch (Lit a)) Eps)) (1, Map.empty)
        = concat (map ?g [1 ..< Suc (?L + 1)])"
    by (simp add: run comp_def del: rmatch.simps(2) upt_Suc)
  also have "\<dots> = ?g ?L"
    by (rule concat_map_single [OF mem]) (use gn in auto)
  finally have inner:
    "rmatch False ?t (Cat (Grp 1 (PlusLazy AnyChar)) (Cat (Ch (Lit a)) Eps)) (1, Map.empty)
       = [(?L + 2, [1 \<mapsto> x])]"
    using gL by simp
  have "rmatch False ?t (WRAPPER a) (0, Map.empty) = [(?L + 2, [1 \<mapsto> x])]"
    unfolding WRAPPER_def seq_def
    using inner by (simp add: canon_def del: rmatch.simps(5,9))
  then show ?thesis by (rule exec_head)
qed

lemma JO_WRAPPER_eq: "JO_WRAPPER = WRAPPER cu_jo"
  and KOU_WRAPPER_eq: "KOU_WRAPPER = WRAPPER cu_ko"
  and GO_WRAPPER_eq: "GO_WRAPPER = WRAPPER cu_go"
  by (simp_all add: JO_WRAPPER_def KOU_WRAPPER_def GO_WRAPPER_def WRAPPER_def)

lemma markers_plain:
  "\<not> is_line_terminator cu_jo" "\<not> is_line_terminator cu_ko" "\<not> is_line_terminator cu_go"
  "\<not> is_ws cu_jo" "\<not> is_ws cu_ko" "\<not> is_ws cu_go"
  by (simp_all add: is_line_terminator_def is_ws_def cu_jo_def cu_ko_def cu_go_def)

lemma wrapped_numeral:
  assumes "1 \<le> n" "n \<le> 9999"
    and a: "\<not> is_line_terminator a" "\<not> is_ws a" "\<not> numeral_char a"
  shows "trim (cu_dai # arabicToKanji n @ [a]) = cu_dai # arabicToKanji n @ [a]"
    and "exec False (WRAPPER a) (cu_dai # arabicToKanji n @ [a]) = Some [1 \<mapsto> arabicToKanji n]"
    and "\<not> test False DIGITS_ONLY (arabicToKanji n)"
proof -
  from arabicToKanji_chars [OF assms(1,2)]
  have ne: "arabicToKanji n \<noteq> []" and ch: "\<forall>c \<in> set (arabicToKanji n). numeral_char c"
    by simp_all
  show "trim (cu_dai # arabicToKanji n @ [a]) = cu_dai # arabicToKanji n @ [a]"
    using a(2) dai_not_ws by (intro trim_id) simp_all
  have "\<forall>c \<in> set (arabicToKanji n). \<not> is_line_terminator c \<and> c \<noteq> a"
    using ch a(3) numeral_char_props(1) by blast
  with ne show "exec False (WRAPPER a) (cu_dai # arabicToKanji n @ [a]) = Some [1 \<mapsto> arabicToKanji n]"
    using a(1) by (intro exec_WRAPPER)
  from ne ch have "\<not> is_digit (hd (arabicToKanji n))"
    using numeral_char_props(3) by (cases "arabicToKanji n") auto
  with ne have "\<not> digit_string (arabicToKanji n)"
    by (cases "arabicToKanji n") (auto simp add: digit_string_def)
  then show "\<not> test False DIGITS_ONLY (arabicToKanji n)"
    by (simp add: test_digits_only_iff)
qed

lemma markers_not_numeral:
  "\<not> numeral_char cu_jo" "\<not> numeral_char cu_ko" "\<not> numeral_char cu_go"
  by (simp_all add: numeral_char_def KANJI_DIGITS_def KANJI_MULTIPLIERS_def
        cu_jo_def cu_ko_def cu_go_def)

lemma parseArticleNumber_wrapped:
  assumes "1 \<le> n" "n \<le> 9999"
  shows "parseArticleNumber (cu_dai # arabicToKanji n @ [cu_jo]) = num_to_string n"
  using assms
    wrapped_numeral [OF assms markers_plain(1) markers_plain(4) markers_not_numeral(1)]
    kanjiToArabic_arabicToKanji [OF assms]
  by (simp add: parseArticleNumber_def JO_WRAPPER_eq)

lemma parseParagraphNumber_wrapped:
  assumes "1 \<le> n" "n \<le> 9999"
  shows "parseParagraphNumber (cu_dai # arabicToKanji n @ [cu_ko]) = num_to_string n"
  using assms
    wrapped_numeral [OF assms markers_plain(2) markers_plain(5) markers_not_numeral(2)]
    kanjiToArabic_arabicToKanji [OF assms]
  by (simp add: parseParagraphNumber_def KOU_WRAPPER_eq)

lemma parseItemNumber_wrapped:
  assumes "1 \<le> n" "n \<le> 9999"
  shows "parseItemNumber (cu_dai # arabicToKanji n @ [cu_go]) = num_to_string n"
  using assms
    wrapped_numeral [OF assms markers_plain(3) markers_plain(6) markers_not_numeral(3)]
    kanjiToArabic_arabicToKanji [OF assms]
  by (simp add: parseItemNumber_def GO_WRAPPER_eq)

lemma rmatch_bounds:
  "(j, c') \<in> set (rmatch ic inp r (i, c)) \<Longrightarrow> i \<le> length inp \<Longrightarrow> i \<le> j \<and> j \<le> length inp"
proof (induction r arbitrary: i c j c')
  case (Cat r1 r2)
  from Cat.prems(1) obtain k d where
    1: "(k, d) \<in> set (rmatch ic inp r1 (i, c))" and 2: "(j, c') \<in> set (rmatch ic inp r2 (k, d))"
    by auto
  from Cat.IH(1) [OF 1 Cat.prems(2)] have k: "i \<le> k" "k \<le> length inp" by simp_all
  from Cat.IH(2) [OF 2 k(2)] k(1) show ?case by simp
next
  case (Grp g r)
  from Grp.prems(1) obtain d where "(j, d) \<in> set (rmatch ic inp r (i, c))" by auto
  from Grp.IH [OF this Grp.prems(2)] show ?case .
next
  case (Opt r)
  from Opt.prems(1) have "(j, c') \<in> set (rmatch ic inp r (i, c)) \<or> j = i" by auto
  then show ?case using Opt.IH [of j c' i c] Opt.prems(2) by auto
next
  case (Alt r1 r2)
  from Alt.prems(1) have
    "(j, c') \<in> set (rmatch ic inp r1 (i, c)) \<or> (j, c') \<in> set (rmatch ic inp r2 (i, c))"
    by simp
  then show ?case using Alt.IH(1) [of j c' i c] Alt.IH(2) [of j c' i c] Alt.prems(2) by auto
next
  case Eps
  then show ?case by simp
next
  case (Ch k)
  then show ?case by (simp split: if_splits)
next
  case (Star k)
  then obtain n where "j = i + n" "n \<le> run ic k inp i" by auto
  then show ?case using run_le [of ic k inp i] Star.prems(2) by simp
next
  case (Plus k)
  then obtain n where "j = i + n" "n \<le> run ic k inp i" by auto
  then show ?case using run_le [of ic k inp i] Plus.prems(2) by simp
next
  case (PlusLazy k)
  then obtain n where "j = i + n" "n \<le> run ic k inp i" by auto
  then show ?case using run_le [of ic k inp i] PlusLazy.prems(2) by simp
next
  case Bol
  then show ?case by (simp split: if_splits)
next
  case Eol
  then show ?case by (simp split: if_splits)
qed



section \<open>Where a reference field comes from\<close>

lemma normalizes_value: "normalizes inner (numeral_text inner)"
  using kanjiToArabic_nonneg [of inner]
  by (auto simp add: normalizes_def numeral_text_def test_digits_only_iff Let_def
        num_to_string_digits)

lemma caps_ok_WRAPPER: "caps_ok (\<lambda>g w. w \<noteq> []) False inp (WRAPPER a)"
  by (auto simp add: WRAPPER_def seq_def simp del: rmatch.simps dest: pluslazy_bounds)

lemma wrapped_taken:
  assumes "trim r \<noteq> []"
  shows "\<exists>inner. inner \<noteq> [] \<and> sublist inner r \<and>
     normalizes inner
       (let trimmed = trim r in
        case exec False (WRAPPER a) trimmed of
          Some m \<Rightarrow>
            (let inner = the (m 1) in
             if test False DIGITS_ONLY inner then inner
             else let arabicNum = kanjiToArabic inner
                  in if arabicNum > 0 then num_to_string arabicNum else inner)
        | None \<Rightarrow>
            if test False DIGITS_ONLY trimmed then trimmed
            else let arabicNum = kanjiToArabic trimmed
                 in if arabicNum > 0 then num_to_string arabicNum else trimmed)"
    (is "\<exists>inner. _ \<and> _ \<and> normalizes inner ?res")
proof (cases "exec False (WRAPPER a) (trim r)")
  case None
  then have "?res = numeral_text (trim r)" by (simp add: numeral_text_def Let_def)
  then have "normalizes (trim r) ?res" by (simp only: normalizes_value)
  with assms sublist_trim [of r] show ?thesis by blast
next
  case (Some m)
  have "1 \<in> defined_groups (WRAPPER a)" by (simp add: WRAPPER_def seq_def)
  from exec_defined [OF Some this] obtain w where w: "m 1 = Some w" by blast
  have ne: "w \<noteq> []"
    using exec_caps_sat [OF caps_ok_WRAPPER Some] w by (simp add: caps_sat_def)
  have "sublist w (trim r)" using Some w by (rule exec_capture_sublist)
  then have sub: "sublist w r" using sublist_trim by (rule sublist_order.order_trans)
  from Some w have "?res = numeral_text w" by (simp add: numeral_text_def Let_def)
  then have "normalizes w ?res" by (simp only: normalizes_value)
  with ne sub show ?thesis by blast
qed

lemma parseArticleNumber_taken:
  "trim r \<noteq> [] \<Longrightarrow> \<exists>inner. inner \<noteq> [] \<and> sublist inner r \<and> normalizes inner (parseArticleNumber r)"
  using wrapped_taken [of r cu_jo] by (simp add: parseArticleNumber_def JO_WRAPPER_eq)

lemma parseParagraphNumber_taken:
  "trim r \<noteq> [] \<Longrightarrow> \<exists>inner. inner \<noteq> [] \<and> sublist inner r \<and> normalizes inner (parseParagraphNumber r)"
  using wrapped_taken [of r cu_ko] by (simp add: parseParagraphNumber_def KOU_WRAPPER_eq)

lemma parseItemNumber_taken:
  "trim r \<noteq> [] \<Longrightarrow> \<exists>inner. inner \<noteq> [] \<and> sublist inner r \<and> normalizes inner (parseItemNumber r)"
  using wrapped_taken [of r cu_go] by (simp add: parseItemNumber_def GO_WRAPPER_eq)

lemma starts_with:
  assumes "(j, c') \<in> set (rmatch False inp (Cat (Ch (Lit a)) r) (i, c))"
  shows "a \<in> set (take (j - i) (drop i inp))"
proof -
  from assms have i: "i < length inp" "inp ! i = a"
    and m: "(j, c') \<in> set (rmatch False inp r (Suc i, c))"
    by (auto simp add: canon_def split: if_splits)
  from rmatch_bounds [OF m] i(1) have "Suc i \<le> j" by simp
  then obtain k where k: "j - i = Suc k" by (cases "j - i") auto
  from i(1) have "drop i inp = inp ! i # drop (Suc i) inp"
    by (simp add: Cons_nth_drop_Suc)
  with k i(2) show ?thesis by simp
qed

lemma caps_ok_PARAGRAPH_PART: "caps_ok (\<lambda>g w. cu_dai \<in> set w) False inp PARAGRAPH_PART"
  by (auto simp add: PARAGRAPH_PART_def seq_def simp del: rmatch.simps dest: starts_with)

lemma caps_ok_ITEM_PART: "caps_ok (\<lambda>g w. cu_dai \<in> set w) False inp ITEM_PART"
  by (auto simp add: ITEM_PART_def seq_def simp del: rmatch.simps dest: starts_with)

lemma taken_fromI:
  assumes "numerals_exact s" "inner \<noteq> []" "sublist inner s" "normalizes inner w"
  shows "taken_from s (Some w)"
  using assms kanjiToArabic_exact [OF assms(1,3)] by (auto simp add: taken_from_def)

lemma part_capture:
  assumes "exec False r a = Some m" "1 \<in> defined_groups r"
    and "caps_ok (\<lambda>g w. cu_dai \<in> set w) False a r"
  shows "\<exists>w. m 1 = Some w \<and> sublist w a \<and> trim w \<noteq> []"
proof -
  from exec_defined [OF assms(1,2)] obtain w where w: "m 1 = Some w" by blast
  have "sublist w a" using assms(1) w by (rule exec_capture_sublist)
  moreover have "cu_dai \<in> set w"
    using exec_caps_sat [OF assms(3,1)] w by (simp add: caps_sat_def)
  then have "trim w \<noteq> []" using dai_not_ws by (rule trim_nonempty)
  ultimately show ?thesis using w by blast
qed

lemma parseJapaneseRef_taken:
  assumes ex: "numerals_exact s" and sub: "sublist a s"
  shows "taken_from s (article (parseJapaneseRef a b))"
    and "taken_from s (paragraph (parseJapaneseRef a b))"
    and "taken_from s (item (parseJapaneseRef a b))"
proof -
  show "taken_from s (article (parseJapaneseRef a b))"
  proof (cases "exec False ARTICLE_PART a")
    case None
    then show ?thesis by (simp add: parseJapaneseRef_def Let_def taken_from_def)
  next
    case (Some m)
    then have "cu_dai \<in> set a" by (rule ARTICLE_PART_dai)
    then have "trim a \<noteq> []" using dai_not_ws by (rule trim_nonempty)
    from parseArticleNumber_taken [OF this] obtain inner where
      i: "inner \<noteq> []" "sublist inner a" "normalizes inner (parseArticleNumber a)" by blast
    from i(2) sub have "sublist inner s" by (rule sublist_order.order_trans)
    from taken_fromI [OF ex i(1) this i(3)] Some show ?thesis
      by (simp add: parseJapaneseRef_def Let_def)
  qed
  show "taken_from s (paragraph (parseJapaneseRef a b))"
  proof (cases "exec False PARAGRAPH_PART a")
    case None
    then show ?thesis by (simp add: parseJapaneseRef_def Let_def taken_from_def)
  next
    case (Some m)
    have "1 \<in> defined_groups PARAGRAPH_PART" by (rule groups_read_are_defined)
    from part_capture [OF Some this caps_ok_PARAGRAPH_PART] obtain w where
      w: "m 1 = Some w" "sublist w a" "trim w \<noteq> []" by blast
    from parseParagraphNumber_taken [OF w(3)] obtain inner where
      i: "inner \<noteq> []" "sublist inner w" "normalizes inner (parseParagraphNumber w)" by blast
    from i(2) w(2) have "sublist inner a" by (rule sublist_order.order_trans)
    then have "sublist inner s" using sub by (rule sublist_order.order_trans)
    from taken_fromI [OF ex i(1) this i(3)] Some w(1) show ?thesis
      by (simp add: parseJapaneseRef_def Let_def)
  qed
  show "taken_from s (item (parseJapaneseRef a b))"
  proof (cases "exec False ITEM_PART a")
    case None
    then show ?thesis by (simp add: parseJapaneseRef_def Let_def taken_from_def)
  next
    case (Some m)
    have "1 \<in> defined_groups ITEM_PART" by (rule groups_read_are_defined)
    from part_capture [OF Some this caps_ok_ITEM_PART] obtain w where
      w: "m 1 = Some w" "sublist w a" "trim w \<noteq> []" by blast
    from parseItemNumber_taken [OF w(3)] obtain inner where
      i: "inner \<noteq> []" "sublist inner w" "normalizes inner (parseItemNumber w)" by blast
    from i(2) w(2) have "sublist inner a" by (rule sublist_order.order_trans)
    then have "sublist inner s" using sub by (rule sublist_order.order_trans)
    from taken_fromI [OF ex i(1) this i(3)] Some w(1) show ?thesis
      by (simp add: parseJapaneseRef_def Let_def)
  qed
qed

lemma digits_taken:
  assumes "numerals_exact s" "sublist w s" "digit_string w"
  shows "taken_from s (Some w)"
  using assms by (intro taken_fromI [of s w]) (simp_all add: normalizes_def digit_string_def)

lemma capture_in_input:
  assumes "exec ic r (trim s) = Some m" "m g = Some w"
  shows "sublist w s"
proof -
  have "sublist w (trim s)" using assms by (rule exec_capture_sublist)
  then show ?thesis using sublist_trim by (rule sublist_order.order_trans)
qed

lemma digits_or_absentI: "(\<And>w. f = Some w \<Longrightarrow> digit_string w) \<Longrightarrow> digits_or_absent f"
  by (cases f) (simp_all add: digits_or_absent_def)

lemma taken_from_digits:
  assumes "numerals_exact s" "\<And>w. f = Some w \<Longrightarrow> digit_string w \<and> sublist w s"
  shows "taken_from s f"
proof (cases f)
  case None
  then show ?thesis by (simp add: taken_from_def)
next
  case (Some w)
  with assms(2) have "digit_string w" "sublist w s" by simp_all
  with assms(1) Some show ?thesis by (simp add: digits_taken)
qed

lemma native_fields:
  assumes "numerals_exact s" "exec False r (trim s) = Some m" "g \<in> defined_groups r"
  shows "taken_from s (article (parseJapaneseRef (the (m g)) b))
    \<and> taken_from s (paragraph (parseJapaneseRef (the (m g)) b))
    \<and> taken_from s (item (parseJapaneseRef (the (m g)) b))"
proof -
  from exec_defined [OF assms(2,3)] obtain a where a: "m g = Some a" by blast
  with assms(2) have "sublist a s" by (rule capture_in_input)
  with assms(1) a show ?thesis by (simp add: parseJapaneseRef_taken)
qed

lemma parseCitation_fields:
  assumes ex: "numerals_exact s"
  shows "(\<not> native_grammar s \<longrightarrow>
       digits_or_absent (article (parseCitation s))
       \<and> digits_or_absent (paragraph (parseCitation s))
       \<and> digits_or_absent (item (parseCitation s)))
   \<and> taken_from s (article (parseCitation s))
   \<and> taken_from s (paragraph (parseCitation s))
   \<and> taken_from s (item (parseCitation s))"
proof -
  let ?t = "trim s"
  show ?thesis
  proof (cases "exec False JAPANESE_CITATION ?t")
    case (Some m)
    have "1 \<in> defined_groups JAPANESE_CITATION" using groups_read_are_defined(1) by simp
    from native_fields [OF ex Some this] Some show ?thesis
      by (simp add: parseCitation_def native_grammar_def)
  next
    case j: None
    show ?thesis
    proof (cases "exec False TRAILING_JAPANESE ?t")
      case (Some m)
      have "2 \<in> defined_groups TRAILING_JAPANESE" using groups_read_are_defined(2) by simp
      from native_fields [OF ex Some this] j Some show ?thesis
        by (simp add: parseCitation_def native_grammar_def)
    next
      case t: None
      show ?thesis
      proof (cases "exec True ENGLISH_FULL ?t")
        case (Some m)
        have q: "digit_string w \<and> sublist w s" if "m g = Some w" "g = 1 \<or> g = 2 \<or> g = 3" for g w
          using exec_caps_sat [OF caps_ok_ENGLISH_FULL Some] capture_in_input [OF Some] that
          by (auto simp add: caps_sat_def)
        have a: "\<And>w. m 1 = Some w \<Longrightarrow> digit_string w \<and> sublist w s"
          and p: "\<And>w. or_undefined (m 2) = Some w \<Longrightarrow> digit_string w \<and> sublist w s"
          and i: "\<And>w. or_undefined (m 3) = Some w \<Longrightarrow> digit_string w \<and> sublist w s"
          using q by (auto dest!: or_undefined_Some)
        have "digits_or_absent (m 1)" "digits_or_absent (or_undefined (m 2))"
          "digits_or_absent (or_undefined (m 3))"
          using a p i by (auto intro: digits_or_absentI)
        moreover have "taken_from s (m 1)" "taken_from s (or_undefined (m 2))"
          "taken_from s (or_undefined (m 3))"
          using a p i by (auto intro: taken_from_digits [OF ex])
        ultimately show ?thesis using j t Some by (simp add: parseCitation_def)
      next
        case e: None
        show ?thesis
        proof (cases "exec True SHORT_CITATION ?t")
          case (Some m)
          have q: "digit_string w \<and> sublist w s" if "m g = Some w" "g = 1 \<or> g = 2" for g w
            using exec_caps_sat [OF caps_ok_SHORT_CITATION Some] capture_in_input [OF Some] that
            by (auto simp add: caps_sat_def)
          have a: "\<And>w. m 1 = Some w \<Longrightarrow> digit_string w \<and> sublist w s"
            and p: "\<And>w. or_undefined (m 2) = Some w \<Longrightarrow> digit_string w \<and> sublist w s"
            using q by (auto dest!: or_undefined_Some)
          have "digits_or_absent (m 1)" "digits_or_absent (or_undefined (m 2))"
            using a p by (auto intro: digits_or_absentI)
          moreover have "taken_from s (m 1)" "taken_from s (or_undefined (m 2))"
            using a p by (auto intro: taken_from_digits [OF ex])
          ultimately show ?thesis using j t e Some
            by (simp add: parseCitation_def digits_or_absent_def taken_from_def)
        next
          case sh: None
          show ?thesis
          proof (cases "exec True ID_BASED ?t")
            case (Some m)
            have q: "digit_string w \<and> sublist w s" if "m g = Some w" "g = 2 \<or> g = 3" for g w
              using exec_caps_sat [OF caps_ok_ID_BASED Some] capture_in_input [OF Some] that
              by (auto simp add: caps_sat_def)
            have a: "\<And>w. m 2 = Some w \<Longrightarrow> digit_string w \<and> sublist w s"
              and p: "\<And>w. or_undefined (m 3) = Some w \<Longrightarrow> digit_string w \<and> sublist w s"
              using q by (auto dest!: or_undefined_Some)
            have "digits_or_absent (m 2)" "digits_or_absent (or_undefined (m 3))"
              using a p by (auto intro: digits_or_absentI)
            moreover have "taken_from s (m 2)" "taken_from s (or_undefined (m 3))"
              using a p by (auto intro: taken_from_digits [OF ex])
            ultimately show ?thesis using j t e sh Some
              by (simp add: parseCitation_def Let_def digits_or_absent_def taken_from_def)
          next
            case None
            with j t e sh show ?thesis
              by (simp add: parseCitation_def digits_or_absent_def taken_from_def)
          qed
        qed
      qed
    qed
  qed
qed

section \<open>A bare article wrapper\<close>

lemma exec_NoneI:
  assumes "\<And>i j m. (j, m) \<in> set (rmatch ic inp r (i, Map.empty)) \<Longrightarrow> False"
  shows "exec ic r inp = None"
proof (cases "exec ic r inp")
  case None
  then show ?thesis .
next
  case (Some m)
  then obtain i j where "(j, m) \<in> set (rmatch ic inp r (i, Map.empty))"
    unfolding exec_def by (blast dest: exec_from_Some)
  with assms show ?thesis by blast
qed

lemma seq_Cons: "seq (r # rs) = Cat r (seq rs)"
  by (simp add: seq_def)

lemma in_rmatch_Cat:
  "(j, c') \<in> set (rmatch ic inp (Cat r1 r2) (i, c)) \<longleftrightarrow>
     (\<exists>k d. (k, d) \<in> set (rmatch ic inp r1 (i, c)) \<and> (j, c') \<in> set (rmatch ic inp r2 (k, d)))"
  by auto

lemma in_rmatch_Bol:
  "(j, c') \<in> set (rmatch ic inp Bol (i, c)) \<longleftrightarrow> i = 0 \<and> j = 0 \<and> c' = c"
  by auto

lemma first_fails:
  assumes "rmatch ic inp a (0, Map.empty) = []"
  shows "exec ic (Cat Bol (Cat a r)) inp = None"
proof (rule exec_NoneI)
  fix i j m
  assume "(j, m) \<in> set (rmatch ic inp (Cat Bol (Cat a r)) (i, Map.empty))"
  then obtain k d where "(k, d) \<in> set (rmatch ic inp a (0, Map.empty))"
    unfolding in_rmatch_Cat in_rmatch_Bol by blast
  with assms show False by simp
qed

lemma plus_first:
  assumes "(j, c') \<in> set (rmatch ic inp (Plus k) (i, c))"
  shows "i < length inp \<and> cmatch ic k (inp ! i) \<and> i < j"
proof -
  from assms obtain n where n: "j = i + n" "1 \<le> n" "n \<le> run ic k inp i"
    by auto
  with run_le [of ic k inp i] have i: "i < length inp" by simp
  then have "drop i inp = inp ! i # drop (Suc i) inp" by (simp add: Cons_nth_drop_Suc)
  with n(2) have "inp ! i \<in> set (take n (drop i inp))" by (cases n) auto
  with take_run [OF n(3)] i n show ?thesis by auto
qed

lemma at_end:
  "(j, c') \<in> set (rmatch ic inp r (length inp, c)) \<Longrightarrow> j = length inp"
  using rmatch_bounds [of j c' ic inp r "length inp" c] by simp

text \<open>The bare wrapper: the marker, text without the article marker, the article marker.\<close>

lemma bare_nth:
  assumes "cu_jo \<notin> set x" "1 \<le> p" "p < length (cu_dai # x @ [cu_jo])"
    "(cu_dai # x @ [cu_jo]) ! p = cu_jo"
  shows "Suc p = length (cu_dai # x @ [cu_jo])"
proof (rule ccontr)
  assume "Suc p \<noteq> length (cu_dai # x @ [cu_jo])"
  with assms(2,3) have "p - 1 < length x" by simp
  moreover from this assms(2) have "(cu_dai # x @ [cu_jo]) ! p = x ! (p - 1)"
    by (cases p) (simp_all add: nth_append)
  ultimately have "(cu_dai # x @ [cu_jo]) ! p \<in> set x" by simp
  with assms(1,4) show False by simp
qed

lemma bare_no_space:
  assumes "\<forall>c \<in> set x. \<not> is_ws c" "1 \<le> p" "p < length (cu_dai # x @ [cu_jo])"
  shows "\<not> is_ws ((cu_dai # x @ [cu_jo]) ! p)"
proof -
  from assms(2,3) have "(cu_dai # x @ [cu_jo]) ! p \<in> set (x @ [cu_jo])"
    by (cases p) (simp_all del: set_append)
  with assms(1) markers_plain(4) show ?thesis by auto
qed


lemma rmatch_seqE:
  assumes "(j, m) \<in> set (rmatch ic inp (seq (r # rs)) (i, c))"
  obtains k d where "(k, d) \<in> set (rmatch ic inp r (i, c))"
    and "(j, m) \<in> set (rmatch ic inp (seq rs) (k, d))"
  using assms unfolding seq_Cons in_rmatch_Cat by blast

lemma rmatch_GrpE:
  assumes "(j, m) \<in> set (rmatch ic inp (Grp g r) (i, c))"
  obtains d where "(j, d) \<in> set (rmatch ic inp r (i, c))"
  using assms by auto

lemma rmatch_BolD: "(j, m) \<in> set (rmatch ic inp Bol (i, c)) \<Longrightarrow> i = 0 \<and> j = 0"
  by auto

lemma rmatch_ChD:
  "(j, m) \<in> set (rmatch False inp (Ch (Lit a)) (i, c)) \<Longrightarrow> i < length inp \<and> inp ! i = a \<and> j = Suc i"
  by (auto simp add: canon_def)

lemma bare_JAPANESE_CITATION:
  assumes "cu_jo \<notin> set x"
  shows "exec False JAPANESE_CITATION (cu_dai # x @ [cu_jo]) = None"
proof (rule exec_NoneI)
  let ?t = "cu_dai # x @ [cu_jo]"
  fix i j m
  assume "(j, m) \<in> set (rmatch False ?t JAPANESE_CITATION (i, Map.empty))"
  then show False
    unfolding JAPANESE_CITATION_def
  proof (elim rmatch_seqE, goal_cases)
    case (1 k0 d0 k1 d1 k2 d2 k3 d3 k4 d4 k5 d5 k6 d6)
    from 1(1) have k0: "k0 = 0" by (simp only: rmatch_BolD)
    from 1(2) have "k1 = length ?t" unfolding k0
    proof (elim rmatch_GrpE rmatch_seqE, goal_cases)
      case (1 e p0 e0 p e1 q e2 q1 e3 q2 e4)
      from pluslazy_bounds [OF 1(2)] have p: "1 \<le> p" by simp
      from rmatch_ChD [OF 1(3)] have "p < length ?t" "?t ! p = cu_jo" "q = Suc p"
        by simp_all
      with bare_nth [OF assms p] have "q = length ?t" by simp
      with 1(4) have "q1 = length ?t" by (simp only: at_end)
      with 1(5) have "q2 = length ?t" by (simp only: at_end)
      with 1(6) show ?case by (simp only: at_end)
    qed
    with 1(3) have "k2 = length ?t" by (simp only: at_end)
    with 1(4) have "k3 = length ?t" by (simp only: at_end)
    with 1(5) have k4: "k4 = length ?t" by (simp only: at_end)
    from 1(6) obtain e where "(k5, e) \<in> set (rmatch False ?t (Plus AnyChar) (k4, d4))"
      by (rule rmatch_GrpE)
    from plus_first [OF this] k4 show ?case by simp
  qed
qed
lemma bare_TRAILING_JAPANESE:
  assumes "\<forall>c \<in> set x. \<not> is_ws c"
  shows "exec False TRAILING_JAPANESE (cu_dai # x @ [cu_jo]) = None"
proof (rule exec_NoneI)
  let ?t = "cu_dai # x @ [cu_jo]"
  fix i j m
  assume "(j, m) \<in> set (rmatch False ?t TRAILING_JAPANESE (i, Map.empty))"
  then show False
    unfolding TRAILING_JAPANESE_def
  proof (elim rmatch_seqE, goal_cases)
    case (1 k0 d0 k1 d1 k2 d2 k3 d3 k4 d4)
    from 1(2) obtain e where "(k1, e) \<in> set (rmatch False ?t (PlusLazy AnyChar) (k0, d0))"
      by (rule rmatch_GrpE)
    from pluslazy_bounds [OF this] have "1 \<le> k1" by simp
    moreover from plus_first [OF 1(3)] have "k1 < length ?t" "is_ws (?t ! k1)" by simp_all
    ultimately show ?case using bare_no_space [OF assms] by blast
  qed
qed

lemma bare_ENGLISH_FULL: "exec True ENGLISH_FULL (cu_dai # x) = None"
  unfolding ENGLISH_FULL_def seq_Cons [of Bol] seq_Cons [of "Alt _ _"]
  by (rule first_fails) (simp add: lit_def seq_def canon_def cu_dai_def)

lemma bare_SHORT_CITATION: "exec True SHORT_CITATION (cu_dai # x) = None"
  unfolding SHORT_CITATION_def seq_Cons [of Bol] seq_Cons [of "Alt _ _"]
  by (rule first_fails) (simp add: lit_def seq_def canon_def cu_dai_def)

lemma bare_ID_BASED: "exec True ID_BASED (cu_dai # x) = None"
  unfolding ID_BASED_def seq_Cons [of Bol] seq_Cons [of "Grp 1 _"]
  by (rule first_fails) (simp add: lit_def seq_def canon_def cu_dai_def)

section \<open>The claims about the parser\<close>

text \<open>
  Claim C1, as the specification states it: whenever the citation returned by
  \<^verbatim>\<open>parseCitation\<close> has its article, paragraph or item populated, the field holds a
  string of Arabic digits, also when the source text used native numerals. It fails on
  an article wrapper around text that is no numeral (dai, the letter X, jo, a space and
  the two characters U+6C11 U+6CD5 of a title): the converter gives 0 there, and the
  parser then keeps the enclosed text as it is.
\<close>

theorem fields_normalized_or_raw_counterexample:
  "article (parseCitation [cu_dai, 0x58, cu_jo, 0x20, 0x6C11, 0x6CD5]) = Some (asc ''X'')
   \<and> \<not> digit_string (asc ''X'')"
  by code_simp

text \<open>
  Claim C1, amended. For every input string in the exact range:

  \<^item> when the citation is not in one of the two native forms (it is read by the English,
    the short or the identifier pattern, or by none), each of article, paragraph and item
    that \<^verbatim>\<open>parseCitation\<close> populates is a non-empty string of the digits 0 to 9;

  \<^item> in every case, a populated field comes from a non-empty piece of the input on which
    \<^verbatim>\<open>kanjiToArabic\<close> is exact: if the piece is all digits, it is the field; if
    \<^verbatim>\<open>kanjiToArabic\<close> reads the piece as a positive number, the field is the string
    of decimal digits of that number; and only if the piece is neither, so that
    \<^verbatim>\<open>kanjiToArabic\<close> gives 0, the field is the piece as it stands;

  \<^item> the native numeral of every \<open>n\<close> from 1 to 9999 (as \<^verbatim>\<open>arabicToKanji\<close>
    writes it) between the wrapper markers is converted to the decimal digits of \<open>n\<close>
    by \<^verbatim>\<open>parseArticleNumber\<close>, \<^verbatim>\<open>parseParagraphNumber\<close> and
    \<^verbatim>\<open>parseItemNumber\<close>.
\<close>

theorem fields_normalized_or_raw:
  assumes "numerals_exact s"
  shows "(\<not> native_grammar s \<longrightarrow>
       digits_or_absent (article (parseCitation s))
       \<and> digits_or_absent (paragraph (parseCitation s))
       \<and> digits_or_absent (item (parseCitation s)))
   \<and> taken_from s (article (parseCitation s))
   \<and> taken_from s (paragraph (parseCitation s))
   \<and> taken_from s (item (parseCitation s))
   \<and> (\<forall>n. 1 \<le> n \<and> n \<le> 9999 \<longrightarrow>
         parseArticleNumber (cu_dai # arabicToKanji n @ [cu_jo]) = num_to_string n
         \<and> parseParagraphNumber (cu_dai # arabicToKanji n @ [cu_ko]) = num_to_string n
         \<and> parseItemNumber (cu_dai # arabicToKanji n @ [cu_go]) = num_to_string n)"
  using parseCitation_fields [OF assms]
    parseArticleNumber_wrapped parseParagraphNumber_wrapped parseItemNumber_wrapped
  by blast

theorem fields_normalized_or_raw_witness:
  "numerals_exact (article_17 @ [0x20, 0x6C11, 0x6CD5])
   \<and> article (parseCitation (article_17 @ [0x20, 0x6C11, 0x6CD5])) = Some (asc ''17'')
   \<and> taken_from (article_17 @ [0x20, 0x6C11, 0x6CD5])
        (article (parseCitation (article_17 @ [0x20, 0x6C11, 0x6CD5])))
   \<and> numerals_exact (asc ''Art. 17, Para. 2, APPI'')
   \<and> \<not> native_grammar (asc ''Art. 17, Para. 2, APPI'')
   \<and> digits_or_absent (article (parseCitation (asc ''Art. 17, Para. 2, APPI'')))
   \<and> digits_or_absent (paragraph (parseCitation (asc ''Art. 17, Para. 2, APPI'')))
   \<and> digits_or_absent (item (parseCitation (asc ''Art. 17, Para. 2, APPI'')))
   \<and> (1::int) \<le> 17 \<and> (17::int) \<le> 9999
   \<and> parseArticleNumber (cu_dai # arabicToKanji 17 @ [cu_jo]) = num_to_string 17"
proof -
  have h1: "numerals_exact (article_17 @ [0x20, 0x6C11, 0x6CD5])"
    by (simp add: numerals_exact_def article_17_def KANJI_DIGITS_def cu_dai_def cu_jo_def)
  have a1: "article (parseCitation (article_17 @ [0x20, 0x6C11, 0x6CD5])) = Some (asc ''17'')"
    by code_simp
  have h2: "numerals_exact (asc ''Art. 17, Para. 2, APPI'')"
    by (simp add: numerals_exact_def asc_def KANJI_DIGITS_def)
  have n2: "\<not> native_grammar (asc ''Art. 17, Para. 2, APPI'')"
    unfolding native_grammar_def by code_simp
  have r: "(1::int) \<le> 17 \<and> (17::int) \<le> 9999" by simp
  from fields_normalized_or_raw [OF h1] fields_normalized_or_raw [OF h2] h1 a1 h2 n2 r
  show ?thesis by blast
qed

text \<open>
  Claim C2. For a citation in the leading native form with an article wrapper, a paragraph
  wrapper and an item wrapper followed by a law name, each numeral is said to be extracted
  with its own wrapper marker: article "17", paragraph "1" and item "3". On that very
  citation the code returns the item "13": the item pattern is searched from the start of
  the reference block, where its optional paragraph marker matches nothing and its
  \<^verbatim>\<open>dai\<close> is the one of the article, so the item wrapper encloses the whole block and
  the converter reads ten, seven, one, three as 10 + 3.
\<close>

theorem item_of_full_reference:
  "parseCitation (article_17_1_3 @ [0x20] @ appi_title) =
     \<lparr> valid = True, type = statute, title = Some appi_title, title_en = None,
       law_number = None, year = None, act_number = None,
       article = Some (asc ''17''), paragraph = Some (asc ''1''), item = Some (asc ''13''),
       error = None \<rparr>"
  by code_simp

text \<open>
  Claim C4. For every input string, if \<^verbatim>\<open>parseCitation\<close> returns a citation with
  \<open>valid = false\<close>, then its type is \<open>unknown\<close>, its error is the diagnostic that
  quotes the trimmed input, and no other field is populated.
\<close>

theorem invalid_citation_shape:
  "\<not> valid (parseCitation s) \<Longrightarrow>
   parseCitation s =
     \<lparr> valid = False, type = unknown, title = None, title_en = None,
       law_number = None, year = None, act_number = None,
       article = None, paragraph = None, item = None,
       error = Some (asc ''Could not parse Japanese legal citation: '' @ [0x22] @ trim s @ [0x22]) \<rparr>"
  by (simp add: parseCitation_def parseJapaneseRef_def Let_def split: option.splits)

theorem invalid_citation_shape_witness:
  "\<not> valid (parseCitation (asc ''hello'')) \<and>
   parseCitation (asc ''hello'') =
     \<lparr> valid = False, type = unknown, title = None, title_en = None,
       law_number = None, year = None, act_number = None,
       article = None, paragraph = None, item = None,
       error = Some (asc ''Could not parse Japanese legal citation: '' @ [0x22]
                     @ trim (asc ''hello'') @ [0x22]) \<rparr>"
proof -
  have h: "\<not> valid (parseCitation (asc ''hello''))" by code_simp
  show ?thesis using h invalid_citation_shape [OF h] by (rule conjI)
qed

text \<open>
  Claim C6. Parsing the citation of article 17 followed by a space and the title yields a
  valid citation with article "17" and that native title, and formatting the result in the
  \<open>japanese\<close> style gives the citation back.
\<close>

theorem parse_format_roundtrip:
  "parseCitation (article_17 @ [0x20] @ appi_title) =
     \<lparr> valid = True, type = statute, title = Some appi_title, title_en = None,
       law_number = None, year = None, act_number = None,
       article = Some (asc ''17''), paragraph = None, item = None, error = None \<rparr>
   \<and> formatCitation (parseCitation (article_17 @ [0x20] @ appi_title)) (asc ''japanese'')
       = article_17 @ [0x20] @ appi_title"
  by code_simp

theorem parse_format_roundtrip_witness:
  "valid (parseCitation (article_17 @ [0x20] @ appi_title))
   \<and> article (parseCitation (article_17 @ [0x20] @ appi_title)) = Some (asc ''17'')
   \<and> title (parseCitation (article_17 @ [0x20] @ appi_title)) = Some appi_title
   \<and> formatCitation (parseCitation (article_17 @ [0x20] @ appi_title)) (asc ''japanese'')
       = article_17 @ [0x20] @ appi_title"
proof -
  note T = parse_format_roundtrip
  from T have p: "parseCitation (article_17 @ [0x20] @ appi_title) =
     \<lparr> valid = True, type = statute, title = Some appi_title, title_en = None,
       law_number = None, year = None, act_number = None,
       article = Some (asc ''17''), paragraph = None, item = None, error = None \<rparr>"
    by (rule conjunct1)
  from T have f: "formatCitation (parseCitation (article_17 @ [0x20] @ appi_title)) (asc ''japanese'')
       = article_17 @ [0x20] @ appi_title"
    by (rule conjunct2)
  have v: "valid (parseCitation (article_17 @ [0x20] @ appi_title))"
    unfolding p by simp
  have a: "article (parseCitation (article_17 @ [0x20] @ appi_title)) = Some (asc ''17'')"
    unfolding p by simp
  have t: "title (parseCitation (article_17 @ [0x20] @ appi_title)) = Some appi_title"
    unfolding p by simp
  from v a t f show ?thesis by (intro conjI)
qed

text \<open>
  Claim C10, as the specification states it: a bare native article reference with no law
  name matches none of the grammars. It fails on the reference to article 17, paragraph 1
  (dai, ten, seven, jo, dai, one, ko) with no law name: the optional paragraph wrapper of
  the leading pattern is given up, the name segment takes the paragraph wrapper, and the
  result is a valid citation of article 17 whose title is that wrapper.
\<close>

theorem bare_reference_counterexample:
  "valid (parseCitation (article_17 @ [cu_dai, 0x4E00, cu_ko]))
   \<and> type (parseCitation (article_17 @ [cu_dai, 0x4E00, cu_ko])) = statute
   \<and> title (parseCitation (article_17 @ [cu_dai, 0x4E00, cu_ko])) = Some [cu_dai, 0x4E00, cu_ko]
   \<and> article (parseCitation (article_17 @ [cu_dai, 0x4E00, cu_ko])) = Some (asc ''17'')
   \<and> paragraph (parseCitation (article_17 @ [cu_dai, 0x4E00, cu_ko])) = None
   \<and> error (parseCitation (article_17 @ [cu_dai, 0x4E00, cu_ko])) = None"
  by code_simp

text \<open>
  Claim C10, amended. A bare article wrapper with nothing after it (the marker dai, any
  text \<open>x\<close> without the article marker jo and without white space, the marker jo)
  matches none of the five patterns: \<^verbatim>\<open>parseCitation\<close> returns \<open>valid = false\<close> with
  the type \<open>unknown\<close> and the diagnostic that quotes the input, which is not empty.
\<close>

theorem bare_article_unparseable:
  assumes "cu_jo \<notin> set x" and "\<forall>c \<in> set x. \<not> is_ws c"
  shows "parseCitation (cu_dai # x @ [cu_jo])
      = \<lparr> valid = False, type = unknown, title = None, title_en = None,
          law_number = None, year = None, act_number = None,
          article = None, paragraph = None, item = None,
          error = Some (asc ''Could not parse Japanese legal citation: '' @ [0x22]
                        @ (cu_dai # x @ [cu_jo]) @ [0x22]) \<rparr>
    \<and> error (parseCitation (cu_dai # x @ [cu_jo])) \<noteq> Some []"
proof -
  have "trim (cu_dai # x @ [cu_jo]) = cu_dai # x @ [cu_jo]"
    using markers_plain dai_not_ws by (intro trim_id) simp_all
  then show ?thesis
    using bare_JAPANESE_CITATION [OF assms(1)] bare_TRAILING_JAPANESE [OF assms(2)]
      bare_ENGLISH_FULL [of "x @ [cu_jo]"] bare_SHORT_CITATION [of "x @ [cu_jo]"]
      bare_ID_BASED [of "x @ [cu_jo]"]
    by (simp add: parseCitation_def Let_def asc_def)
qed

theorem bare_article_unparseable_witness:
  "cu_jo \<notin> set [0x5341, 0x4E03]
   \<and> \<not> is_ws 0x5341 \<and> \<not> is_ws 0x4E03
   \<and> parseCitation article_17
      = \<lparr> valid = False, type = unknown, title = None, title_en = None,
          law_number = None, year = None, act_number = None,
          article = None, paragraph = None, item = None,
          error = Some (asc ''Could not parse Japanese legal citation: '' @ [0x22]
                        @ article_17 @ [0x22]) \<rparr>
   \<and> error (parseCitation article_17) \<noteq> Some []"
proof -
  have h1: "cu_jo \<notin> set [0x5341, 0x4E03]" by (simp add: cu_jo_def)
  have h2: "\<forall>c \<in> set [0x5341, 0x4E03]. \<not> is_ws c" by (simp add: is_ws_def)
  have a: "article_17 = cu_dai # [0x5341, 0x4E03] @ [cu_jo]" by (simp add: article_17_def)
  from bare_article_unparseable [OF h1 h2] h1 h2 show ?thesis unfolding a by simp
qed

section \<open>The claims about the formatter\<close>

text \<open>
  Claim C5. For every parsed citation \<open>p\<close> and every style, also one that names no style:
  if \<open>p\<close> is not valid or its article is absent, \<^verbatim>\<open>formatCitation\<close> returns the empty
  string. The function is total, so no input makes it throw.
\<close>

theorem formatCitation_empty:
  "\<not> valid p \<or> article p = None \<Longrightarrow> formatCitation p style = []"
  by (auto simp add: formatCitation_def truthy_str_def)

theorem formatCitation_empty_witness:
  "\<not> valid (parseCitation (asc ''hello''))
   \<and> formatCitation (parseCitation (asc ''hello'')) (asc ''no-such-style'') = []
   \<and> article (no_article :: ParsedCitation) = None
   \<and> formatCitation no_article (asc ''japanese'') = []"
proof -
  have h: "\<not> valid (parseCitation (asc ''hello''))" by code_simp
  then have 1: "\<not> valid (parseCitation (asc ''hello'')) \<or> article (parseCitation (asc ''hello'')) = None"
    by (rule disjI1)
  have a: "article no_article = None" by (simp add: no_article_def)
  then have 2: "\<not> valid no_article \<or> article no_article = None"
    by (rule disjI2)
  from h formatCitation_empty [OF 1] a formatCitation_empty [OF 2] show ?thesis by (intro conjI)
qed




section \<open>The claims about the validator and the format tool\<close>

text \<open>
  Claim C7. For every citation string that parses to a valid citation with an article: if
  the document lookup returns a document whose status is \<open>repealed\<close> and the provision
  lookup (by the reference \<open>art-n\<close>, the section \<open>n\<close> and the prefix pattern) finds
  nothing, then \<^verbatim>\<open>validateCitation\<close> returns \<open>document_exists = true\<close>,
  \<open>provision_exists = false\<close> and the two warnings, the repeal notice and the
  provision-not-found notice.
\<close>

theorem validateCitation_repealed_missing:
  assumes "valid (parseCitation c)"
    and "article (parseCitation c) = Some a"
    and "get_document db ([0x25] @ coalesce (title (parseCitation c)) (title_en (parseCitation c)) @ [0x25])
           ([0x25] @ coalesce (title (parseCitation c)) (title_en (parseCitation c)) @ [0x25])
           ([0x25] @ coalesce (title (parseCitation c)) (title_en (parseCitation c)) @ [0x25])
           (coalesce (title (parseCitation c)) (title_en (parseCitation c))) = Some d"
    and "doc_status d = asc ''repealed''"
    and "\<not> get_provision db (doc_id d) (asc ''art-'' @ a) a (asc ''art-'' @ a @ [0x25])"
  shows "vr_document_exists (validateCitation db c)
    \<and> \<not> vr_provision_exists (validateCitation db c)
    \<and> vr_warnings (validateCitation db c) =
        [asc ''This statute has been repealed'',
         asc ''Article '' @ a @ asc '' not found in '' @ doc_title d]"
proof -
  from assms(2) have "a \<noteq> []" by (rule parseCitation_article_nonempty)
  with assms(2) have t: "truthy_str (article (parseCitation c))"
    by (cases a) (simp_all add: truthy_str_def)
  show ?thesis
    unfolding validateCitation_def Let_def using assms t by simp
qed

theorem validateCitation_repealed_missing_witness:
  "valid (parseCitation (asc ''Art. 17, APPI''))
   \<and> article (parseCitation (asc ''Art. 17, APPI'')) = Some (asc ''17'')
   \<and> doc_status demo_doc = asc ''repealed''
   \<and> vr_document_exists (validateCitation demo_db (asc ''Art. 17, APPI''))
   \<and> \<not> vr_provision_exists (validateCitation demo_db (asc ''Art. 17, APPI''))
   \<and> vr_warnings (validateCitation demo_db (asc ''Art. 17, APPI'')) =
        [asc ''This statute has been repealed'',
         asc ''Article '' @ asc ''17'' @ asc '' not found in '' @ doc_title demo_doc]"
proof -
  let ?c = "asc ''Art. 17, APPI''"
  let ?p = "parseCitation ?c"
  have h1: "valid ?p" by code_simp
  have h2: "article ?p = Some (asc ''17'')" by code_simp
  have st: "coalesce (title ?p) (title_en ?p) = asc ''APPI''" by code_simp
  have h3: "get_document demo_db ([0x25] @ coalesce (title ?p) (title_en ?p) @ [0x25])
           ([0x25] @ coalesce (title ?p) (title_en ?p) @ [0x25])
           ([0x25] @ coalesce (title ?p) (title_en ?p) @ [0x25])
           (coalesce (title ?p) (title_en ?p)) = Some demo_doc"
    unfolding st by (simp add: demo_db_def)
  have h4: "doc_status demo_doc = asc ''repealed''" by (simp add: demo_doc_def)
  have h5: "\<not> get_provision demo_db (doc_id demo_doc) (asc ''art-'' @ asc ''17'') (asc ''17'')
              (asc ''art-'' @ asc ''17'' @ [0x25])"
    by (simp add: demo_db_def)
  from validateCitation_repealed_missing [OF h1 h2 h3 h4 h5] h1 h2 h4
  show ?thesis by blast
qed

text \<open>
  Claim C9. For every citation string that is not blank and on which \<^verbatim>\<open>parseCitation\<close>
  fails, \<^verbatim>\<open>formatCitationTool\<close> returns \<open>valid = false\<close>, \<open>formatted\<close> equal to
  the input string as it was passed, an empty \<open>formatted_japanese\<close>, the type
  \<open>unknown\<close> and the parser's error; for an empty or blank input it returns empty strings
  with the error "Empty citation", whatever the parser would say.
\<close>

theorem formatCitationTool_failure:
  "(trim c \<noteq> [] \<and> \<not> valid (parseCitation c) \<longrightarrow>
      formatCitationTool \<lparr> fci_citation = c, fci_format = f \<rparr> =
        \<lparr> fcr_input = c, fcr_formatted = c, fcr_formatted_japanese = [],
          fcr_type = asc ''unknown'', fcr_valid = False,
          fcr_error = error (parseCitation c) \<rparr>)
   \<and> (trim c = [] \<longrightarrow>
      formatCitationTool \<lparr> fci_citation = c, fci_format = f \<rparr> =
        \<lparr> fcr_input = [], fcr_formatted = [], fcr_formatted_japanese = [],
          fcr_type = asc ''unknown'', fcr_valid = False,
          fcr_error = Some (asc ''Empty citation'') \<rparr>)"
proof -
  have "trim c \<noteq> [] \<Longrightarrow> c \<noteq> []" by (auto simp add: trim_def)
  then show ?thesis by (auto simp add: formatCitationTool_def Let_def)
qed

theorem formatCitationTool_failure_witness:
  "(trim (asc ''hello'') \<noteq> [] \<and> \<not> valid (parseCitation (asc ''hello'')))
   \<and> formatCitationTool \<lparr> fci_citation = asc ''hello'', fci_format = None \<rparr> =
        \<lparr> fcr_input = asc ''hello'', fcr_formatted = asc ''hello'', fcr_formatted_japanese = [],
          fcr_type = asc ''unknown'', fcr_valid = False,
          fcr_error = error (parseCitation (asc ''hello'')) \<rparr>
   \<and> trim (asc ''  '') = []
   \<and> formatCitationTool \<lparr> fci_citation = asc ''  '', fci_format = None \<rparr> =
        \<lparr> fcr_input = [], fcr_formatted = [], fcr_formatted_japanese = [],
          fcr_type = asc ''unknown'', fcr_valid = False,
          fcr_error = Some (asc ''Empty citation'') \<rparr>"
proof -
  have h1: "trim (asc ''hello'') \<noteq> [] \<and> \<not> valid (parseCitation (asc ''hello''))" by code_simp
  have h2: "trim (asc ''  '') = []" by code_simp
  from formatCitationTool_failure [of "asc ''hello''" None]
       formatCitationTool_failure [of "asc ''  ''" None] h1 h2
  show ?thesis by blast
qed

end
